theory Spec2Isabelle
  imports Complex_Main "HOL-Library.Sublist" "HOL-Library.Char_ord"
begin

section \<open>The editable surface (TextInput.tsx)\<close>

text \<open>
  The component keeps the user's text as an HTML fragment in which the segments are
  separated by the line-break marker \<^verbatim>\<open><br>\<close>. A JavaScript string is modelled as a
  \<^typ>\<open>string\<close>, one \<^typ>\<open>char\<close> per code unit. The only characters the code inspects
  are ASCII (the angle brackets, the slash, the letters and the line feed), so nothing below
  depends on the width of a code unit.
\<close>

subsection \<open>Strings: split, join, replace\<close>

definition br :: string where
  \<open>br = ''<br>''\<close>

text \<open>
  \<^verbatim>\<open>input.split('<br>')\<close>: the occurrences of the separator are found from left to right,
  they do not overlap, and the pieces between them are returned, so that a string without
  the separator gives one piece (also the empty string, which gives one empty piece).
\<close>

function split_br :: "string \<Rightarrow> string list" where
  "split_br [] = [[]]"
| "split_br (c # cs) =
     (if prefix br (c # cs) then [] # split_br (drop (length br) (c # cs))
      else (case split_br cs of
              [] \<Rightarrow> [[c]]
            | w # ws \<Rightarrow> (c # w) # ws))"
  by pat_completeness auto
termination
  by (relation "measure length") (auto simp: br_def)

text \<open>
  \<^verbatim>\<open>replaceMentTexts.join('<br>')\<close>: the empty array gives the empty string, and the
  separator stands between neighbours only.
\<close>

fun join_br :: "string list \<Rightarrow> string" where
  "join_br [] = []"
| "join_br [x] = x"
| "join_br (x # y # ys) = x @ br @ join_br (y # ys)"

text \<open>\<^verbatim>\<open>let texts = input ? input.split('<br>') : []\<close>: the empty string is falsy.\<close>

definition texts_of :: "string \<Rightarrow> string list" where
  "texts_of input = (if input = [] then [] else split_br input)"

text \<open>\<^verbatim>\<open>text.replace(/\n/g, '<br>')\<close>: every line feed becomes one marker.\<close>

definition newline :: char where
  "newline = CHR 0x0A"

fun replace_newlines :: "string \<Rightarrow> string" where
  "replace_newlines [] = []"
| "replace_newlines (c # cs) =
     (if c = newline then br @ replace_newlines cs else c # replace_newlines cs)"

subsection \<open>The pattern that strips tags\<close>

text \<open>
  \<^verbatim>\<open>/<(?!br\s*\/?)[a-z][^>]*>|<\/(?!br\s*\/?)[a-z][^>]*>/gi\<close>

  The pattern is compiled by hand, one function for each part. The flag \<^verbatim>\<open>i\<close> makes the
  letters match in both cases.
\<close>

definition is_alpha :: "char \<Rightarrow> bool" where
  \<comment> \<open>\<^verbatim>\<open>[a-z]\<close> under the flag \<^verbatim>\<open>i\<close>\<close>
  "is_alpha c \<longleftrightarrow>
     (CHR ''a'' \<le> c \<and> c \<le> CHR ''z'') \<or> (CHR ''A'' \<le> c \<and> c \<le> CHR ''Z'')"

definition br_ahead :: "string \<Rightarrow> bool" where
  \<comment> \<open>\<^verbatim>\<open>br\s*\/?\<close> matches at the head of the string: after the two letters
      both \<^verbatim>\<open>\s*\<close> and \<^verbatim>\<open>\/?\<close> match the empty string, so they never make the
      look-ahead fail\<close>
  "br_ahead s =
     (case s of
        c1 # c2 # _ \<Rightarrow> (c1 = CHR ''b'' \<or> c1 = CHR ''B'') \<and> (c2 = CHR ''r'' \<or> c2 = CHR ''R'')
      | _ \<Rightarrow> False)"

definition until_gt :: "string \<Rightarrow> string option" where
  \<comment> \<open>\<^verbatim>\<open>[^>]*>\<close>: the greedy class stops at the first \<^verbatim>\<open>>\<close>, which the pattern then
      consumes; without one there is no match. The result is the rest of the string.\<close>
  "until_gt s =
     (case dropWhile (\<lambda>c. c \<noteq> CHR ''>'') s of
        [] \<Rightarrow> None
      | _ # rest \<Rightarrow> Some rest)"

definition tag_body :: "string \<Rightarrow> string option" where
  \<comment> \<open>\<^verbatim>\<open>(?!br\s*\/?)[a-z][^>]*>\<close>, common to both alternatives\<close>
  "tag_body s =
     (if br_ahead s then None
      else (case s of
              [] \<Rightarrow> None
            | c # cs \<Rightarrow> if is_alpha c then until_gt cs else None))"

definition open_tag :: "string \<Rightarrow> string option" where
  \<comment> \<open>the first alternative\<close>
  "open_tag s =
     (case s of
        [] \<Rightarrow> None
      | c # cs \<Rightarrow> if c = CHR ''<'' then tag_body cs else None)"

definition close_tag :: "string \<Rightarrow> string option" where
  \<comment> \<open>the second alternative\<close>
  "close_tag s =
     (case s of
        c1 # c2 # cs \<Rightarrow> if c1 = CHR ''<'' \<and> c2 = CHR ''/'' then tag_body cs else None
      | _ \<Rightarrow> None)"

definition match_tag :: "string \<Rightarrow> string option" where
  \<comment> \<open>the whole pattern tried at the head of the string, the alternatives in order\<close>
  "match_tag s = (case open_tag s of Some rest \<Rightarrow> Some rest | None \<Rightarrow> close_tag s)"

lemma until_gt_length: "until_gt s = Some rest \<Longrightarrow> length rest < length s"
proof -
  assume a: "until_gt s = Some rest"
  have "length (dropWhile (\<lambda>c. c \<noteq> CHR ''>'') s) \<le> length s"
    by (rule length_dropWhile_le)
  with a show ?thesis
    by (auto simp: until_gt_def split: list.splits)
qed

lemma tag_body_length: "tag_body s = Some rest \<Longrightarrow> length rest < length s"
  by (auto simp: tag_body_def split: if_splits list.splits dest: until_gt_length)

lemma match_tag_length: "match_tag s = Some rest \<Longrightarrow> length rest < length s"
  by (auto simp: match_tag_def open_tag_def close_tag_def
      split: option.splits if_splits list.splits dest: tag_body_length)

text \<open>
  \<^verbatim>\<open>input.replace(pattern, '')\<close> with the flag \<^verbatim>\<open>g\<close>: the string is scanned from left
  to right; where the pattern matches, the match is dropped and the scan goes on behind it,
  elsewhere the character is kept.
\<close>

function strip_tags :: "string \<Rightarrow> string" where
  "strip_tags [] = []"
| "strip_tags (c # cs) =
     (case match_tag (c # cs) of
        Some rest \<Rightarrow> strip_tags rest
      | None \<Rightarrow> c # strip_tags cs)"
  by pat_completeness auto
termination
  by (relation "measure length") (auto dest: match_tag_length)

declare split_br.simps(2) [simp del] strip_tags.simps(2) [simp del]

text \<open>
  The content is cleaned when the pattern matches nowhere in it: it holds no tag but
  line-break markers.
\<close>

fun cleaned :: "string \<Rightarrow> bool" where
  "cleaned [] \<longleftrightarrow> True"
| "cleaned (c # cs) \<longleftrightarrow> match_tag (c # cs) = None \<and> cleaned cs"

text \<open>
  Content in which no \<^verbatim>\<open><\<close> stands directly before another \<^verbatim>\<open><\<close>, and no
  \<^verbatim>\<open></\<close> directly before a \<^verbatim>\<open><\<close>: there no tag can be put together from the two
  sides of a stripped one.
\<close>

fun no_nested :: "string \<Rightarrow> bool" where
  "no_nested [] \<longleftrightarrow> True"
| "no_nested (c # cs) \<longleftrightarrow>
     (if c = CHR ''<'' \<and> (prefix ''<'' cs \<or> prefix ''/<'' cs) then False else no_nested cs)"

subsection \<open>Numbers\<close>

text \<open>
  A JavaScript number is a double: a finite value, one of the two zeros, one of the two
  infinities, or \<^verbatim>\<open>NaN\<close>. A finite value is kept as the rational it stands for,
  \<open>Fin 0\<close> being \<^verbatim>\<open>+0\<close>. The operations of the code are those of IEEE 754 binary64 in
  the mode JavaScript uses: the exact result is rounded to the nearest double, a tie going
  to the even significand; a result of magnitude \<open>2\<^sup>1\<^sup>0\<^sup>2\<^sup>4\<close> or more after rounding is an
  infinity; a division by zero gives an infinity or \<^verbatim>\<open>NaN\<close> and never throws.
\<close>

datatype number = Fin rat | NegZero | PosInf | NegInf | NaN

text \<open>The exponent of a positive rational \<open>x\<close>: the greatest \<open>e\<close> with \<open>2 powi e \<le> x\<close>.\<close>

function ilog2 :: "rat \<Rightarrow> int" where
  "ilog2 x =
     (if x \<le> 0 then 0
      else if 2 \<le> x then ilog2 (x / 2) + 1
      else if x < 1 then ilog2 (x * 2) - 1
      else 0)"
  by pat_completeness auto
termination
proof (relation "measure (\<lambda>x. if 1 \<le> x then nat \<lfloor>x\<rfloor> else nat \<lceil>1 / x\<rceil>)")
  show "wf (measure (\<lambda>x::rat. if 1 \<le> x then nat \<lfloor>x\<rfloor> else nat \<lceil>1 / x\<rceil>))"
    by simp
next
  fix x :: rat
  assume "\<not> x \<le> 0" "2 \<le> x"
  then have "\<lfloor>x / 2\<rfloor> < \<lfloor>x\<rfloor>" "0 < \<lfloor>x\<rfloor>"
    by (simp_all add: floor_less_iff, linarith+)
  then show "(x / 2, x) \<in> measure (\<lambda>x. if 1 \<le> x then nat \<lfloor>x\<rfloor> else nat \<lceil>1 / x\<rceil>)"
    using \<open>2 \<le> x\<close> by simp
next
  fix x :: rat
  assume a: "\<not> x \<le> 0" "\<not> 2 \<le> x" "x < 1"
  then have x: "0 < x" by simp
  show "(x * 2, x) \<in> measure (\<lambda>x. if 1 \<le> x then nat \<lfloor>x\<rfloor> else nat \<lceil>1 / x\<rceil>)"
  proof (cases "1 \<le> x * 2")
    case True
    with a have "\<lfloor>x * 2\<rfloor> = 1" by (simp add: floor_eq_iff)
    moreover from x a have "1 < 1 / x" by simp
    then have "1 < \<lceil>1 / x\<rceil>" by (simp add: less_ceiling_iff)
    ultimately show ?thesis using True a by simp
  next
    case False
    from x False have "2 \<le> 1 / x" by (simp add: field_simps)
    then have "1 / (x * 2) \<le> 1 / x - 1" by simp
    then have "\<lceil>1 / (x * 2)\<rceil> \<le> \<lceil>1 / x - 1\<rceil>" by (rule ceiling_mono)
    also have "\<dots> = \<lceil>1 / x\<rceil> - 1" by simp
    finally have "\<lceil>1 / (x * 2)\<rceil> < \<lceil>1 / x\<rceil>" by simp
    moreover from x have "0 < \<lceil>1 / x\<rceil>" by simp
    ultimately show ?thesis using False a by simp
  qed
qed

declare ilog2.simps [simp del]

text \<open>
  Rounding a rational to a double. With \<open>e\<close> the exponent of \<open>x\<close>, at least \<open>-1022\<close>
  (below that the doubles are subnormal), the doubles near \<open>x\<close> are the multiples of
  \<open>2 powi (e - 52)\<close>, so \<open>x\<close> is rounded to the nearest multiple, and a result that is zero
  keeps the sign of \<open>x\<close>.
\<close>

definition round_half_even :: "rat \<Rightarrow> int" where
  "round_half_even x =
     (let f = \<lfloor>x\<rfloor>; d = x - of_int f
      in if d < 1 / 2 then f else if 1 / 2 < d then f + 1 else if even f then f else f + 1)"

definition round64 :: "rat \<Rightarrow> number" where
  "round64 x =
     (if x = 0 then Fin 0
      else (let e = max (ilog2 \<bar>x\<bar>) (- 1022) - 52;
                r = of_int (round_half_even (x / 2 powi e)) * 2 powi e
            in if 2 powi 1024 \<le> \<bar>r\<bar> then (if 0 < x then PosInf else NegInf)
               else if r = 0 then (if 0 < x then Fin 0 else NegZero)
               else Fin r))"

text \<open>The sign bit, the infinities, and the rational a finite number stands for.\<close>

fun negative :: "number \<Rightarrow> bool" where
  "negative (Fin q) \<longleftrightarrow> q < 0"
| "negative NegZero \<longleftrightarrow> True"
| "negative NegInf \<longleftrightarrow> True"
| "negative _ \<longleftrightarrow> False"

fun is_inf :: "number \<Rightarrow> bool" where
  "is_inf PosInf \<longleftrightarrow> True"
| "is_inf NegInf \<longleftrightarrow> True"
| "is_inf _ \<longleftrightarrow> False"

fun fin_value :: "number \<Rightarrow> rat" where
  "fin_value (Fin q) = q"
| "fin_value _ = 0"

definition zero :: "bool \<Rightarrow> number" where
  "zero s = (if s then NegZero else Fin 0)"

definition infinity :: "bool \<Rightarrow> number" where
  "infinity s = (if s then NegInf else PosInf)"

definition num_add :: "number \<Rightarrow> number \<Rightarrow> number" where
  "num_add x y =
     (if x = NaN \<or> y = NaN then NaN
      else if is_inf x \<and> is_inf y then (if x = y then x else NaN)
      else if is_inf x then x
      else if is_inf y then y
      else if fin_value x + fin_value y = 0 then zero (negative x \<and> negative y)
      else round64 (fin_value x + fin_value y))"

definition num_mul :: "number \<Rightarrow> number \<Rightarrow> number" where
  "num_mul x y =
     (if x = NaN \<or> y = NaN then NaN
      else if is_inf x \<or> is_inf y then
        (if \<not> is_inf x \<and> fin_value x = 0 \<or> \<not> is_inf y \<and> fin_value y = 0 then NaN
         else infinity (negative x \<noteq> negative y))
      else if fin_value x * fin_value y = 0 then zero (negative x \<noteq> negative y)
      else round64 (fin_value x * fin_value y))"

definition num_div :: "number \<Rightarrow> number \<Rightarrow> number" where
  "num_div x y =
     (if x = NaN \<or> y = NaN then NaN
      else if is_inf x then (if is_inf y then NaN else infinity (negative x \<noteq> negative y))
      else if is_inf y then zero (negative x \<noteq> negative y)
      else if fin_value y = 0 then
        (if fin_value x = 0 then NaN else infinity (negative x \<noteq> negative y))
      else if fin_value x = 0 then zero (negative x \<noteq> negative y)
      else round64 (fin_value x / fin_value y))"

definition num_gt :: "number \<Rightarrow> number \<Rightarrow> bool" where
  "num_gt x y \<longleftrightarrow>
     (if x = NaN \<or> y = NaN then False
      else if x = PosInf then y \<noteq> PosInf
      else if y = NegInf then x \<noteq> NegInf
      else if x = NegInf \<or> y = PosInf then False
      else fin_value y < fin_value x)"

definition or_zero :: "number \<Rightarrow> number" where
  \<comment> \<open>\<^verbatim>\<open>x || 0\<close>: the zeros and \<^verbatim>\<open>NaN\<close> are falsy\<close>
  "or_zero x = (if x = NaN \<or> \<not> is_inf x \<and> fin_value x = 0 then Fin 0 else x)"

definition of_length :: "'a list \<Rightarrow> number" where
  \<comment> \<open>\<^verbatim>\<open>xs.length\<close> as a number; an array has fewer than \<^verbatim>\<open>2^32\<close> entries, and such a
      count is a double\<close>
  "of_length xs = Fin (of_nat (length xs))"

text \<open>\<^verbatim>\<open>i.toString()\<close> of an array index: its decimal digits.\<close>

definition digit :: "nat \<Rightarrow> char" where
  "digit d = ''0123456789'' ! d"

function toString :: "nat \<Rightarrow> string" where
  "toString n = (if n < 10 then [digit n] else toString (n div 10) @ [digit (n mod 10)])"
  by pat_completeness auto
termination
  by (relation "measure id") auto

declare toString.simps [simp del]

subsection \<open>The data of the application\<close>

text \<open>
  The interfaces \<^verbatim>\<open>InputTextResult\<close> and \<^verbatim>\<open>UserDocument\<close> are declared outside the
  two components; their fields are those the components read and write. The elements of
  \<^verbatim>\<open>details\<close> are never inspected, only counted.
\<close>

record Score =
  gpt :: number
  human :: number

record Metrics =
  coherence :: number
  repetition :: number
  personality :: number
  originality :: number

record InputTextResult =
  id' :: string
  score :: Score
  metrics :: Metrics
  details :: "string list"

record OverallMetrics = Metrics +
  errorTextCount :: number

record Rating = Score +
  metrics' :: OverallMetrics

record UserDocument =
  content :: string
  rating :: Rating
  results :: "InputTextResult list"

text \<open>The body of a verification call: \<^verbatim>\<open>{id: textId, data: sentence}\<close>.\<close>

record request =
  req_id :: nat
  req_data :: string

text \<open>
  What can be thrown in the promise chain: \<^verbatim>\<open>fetch\<close> rejects, \<^verbatim>\<open>json()\<close> rejects, or the
  surface is written through a null reference.
\<close>

datatype error = FetchError | ParseError | TypeError

text \<open>The effects of the handlers, in the order in which they happen.\<close>

datatype event =
    SetInnerHTML string
  | Fetch request
  | SetIsLoading bool
  | SetResults "InputTextResult list"
  | UpdateUserDocument UserDocument
  | ConsoleLog error

text \<open>
  The state the handlers work on: the content of the editable element
  (\<^verbatim>\<open>textInputRef.current.innerHTML\<close>, or nothing while the reference is null), the two
  values of the shared context, the document, and the effects so far. Writing the content
  and reading it back gives the same string: the parser and the serializer of the browser
  are not modelled.
\<close>

record state =
  innerHTML :: "string option"
  isLoading :: bool
  shared_results :: "InputTextResult list"
  userDocument :: UserDocument
  trace :: "event list"

definition emit :: "event \<Rightarrow> state \<Rightarrow> state" where
  "emit e st = st\<lparr>trace := trace st @ [e]\<rparr>"

definition setInnerHTML :: "string \<Rightarrow> state \<Rightarrow> state" where
  "setInnerHTML h st = emit (SetInnerHTML h) (st\<lparr>innerHTML := Some h\<rparr>)"

definition setIsLoading :: "bool \<Rightarrow> state \<Rightarrow> state" where
  "setIsLoading b st = emit (SetIsLoading b) (st\<lparr>isLoading := b\<rparr>)"

definition setResults :: "InputTextResult list \<Rightarrow> state \<Rightarrow> state" where
  "setResults rs st = emit (SetResults rs) (st\<lparr>shared_results := rs\<rparr>)"

definition updateUserDocument :: "UserDocument \<Rightarrow> state \<Rightarrow> state" where
  "updateUserDocument d st = emit (UpdateUserDocument d) (st\<lparr>userDocument := d\<rparr>)"

definition console_log :: "error \<Rightarrow> state \<Rightarrow> state" where
  "console_log e st = emit (ConsoleLog e) st"

definition innerHTML_or_empty :: "state \<Rightarrow> string" where
  \<comment> \<open>\<^verbatim>\<open>textInputRef.current?.innerHTML || ''\<close>\<close>
  "innerHTML_or_empty st = (case innerHTML st of None \<Rightarrow> [] | Some h \<Rightarrow> h)"

subsection \<open>Paste\<close>

text \<open>
  \<^verbatim>\<open>event.clipboardData?.getData('text/plain')\<close>: the clipboard maps a format to its data;
  without a clipboard the text is undefined and \<^verbatim>\<open>text.replace\<close> throws. The sanitized
  text is added behind the content of the element, and the content is written to the
  document.
\<close>

type_synonym clipboardData = "string \<Rightarrow> string"

definition handlePaste :: "clipboardData option \<Rightarrow> state \<Rightarrow> error + state" where
  "handlePaste clipboard st =
     (case clipboard of
        None \<Rightarrow> Inl TypeError
      | Some getData \<Rightarrow>
          (let text = getData ''text/plain'';
               text = replace_newlines text;
               st1 = (case innerHTML st of
                        None \<Rightarrow> st
                      | Some h \<Rightarrow> setInnerHTML (h @ text) st)
           in Inr (updateUserDocument
                     ((userDocument st1)\<lparr>content := innerHTML_or_empty st1\<rparr>) st1)))"

subsection \<open>Submission: the calls\<close>

text \<open>
  \<^verbatim>\<open>verifyText\<close> returns undefined for an empty sentence and otherwise posts the request;
  the model keeps the request that was sent beside the promise of its response. The
  endpoint is a parameter: \<open>fetch\<close> gives the response or rejects, \<open>json\<close> parses the
  body of a response or rejects.
\<close>

definition verifyText ::
  "(request \<Rightarrow> error + 'r) \<Rightarrow> nat \<Rightarrow> string \<Rightarrow> (request \<times> (error + 'r)) option" where
  "verifyText fetch textId sentence =
     (if sentence = [] then None
      else (let body = \<lparr>req_id = textId, req_data = sentence\<rparr>
            in Some (body, fetch body)))"

definition verifyTextApiCalls ::
  "(request \<Rightarrow> error + 'r) \<Rightarrow> string list \<Rightarrow> (request \<times> (error + 'r)) option list" where
  \<comment> \<open>\<^verbatim>\<open>texts.map((text, idx) => verifyText(idx, text))\<close>\<close>
  "verifyTextApiCalls fetch texts =
     map (\<lambda>(idx, text). verifyText fetch idx text) (enumerate 0 texts)"

definition dispatched :: "(request \<times> (error + 'r)) option list \<Rightarrow> event list" where
  \<comment> \<open>the calls that were issued while the array was built, in order\<close>
  "dispatched calls = map (\<lambda>(body, _). Fetch body) (List.map_filter (\<lambda>c. c) calls)"

text \<open>
  \<^verbatim>\<open>Promise.all\<close>: the values in order when every promise is fulfilled, and a rejection
  otherwise. When several promises reject, the one that rejects first in time wins; time is
  not modelled, and the rejection at the lowest position is taken.
\<close>

fun Promise_all :: "(error + 'a) list \<Rightarrow> error + 'a list" where
  "Promise_all [] = Inr []"
| "Promise_all (p # ps) =
     (case p of
        Inl e \<Rightarrow> Inl e
      | Inr v \<Rightarrow> (case Promise_all ps of Inl e \<Rightarrow> Inl e | Inr vs \<Rightarrow> Inr (v # vs)))"

definition settle :: "(request \<times> (error + 'r)) option \<Rightarrow> error + 'r option" where
  \<comment> \<open>an entry of the array given to \<^verbatim>\<open>Promise.all\<close>: undefined is passed through\<close>
  "settle c = (case c of
                 None \<Rightarrow> Inr None
               | Some (_, p) \<Rightarrow> (case p of Inl e \<Rightarrow> Inl e | Inr r \<Rightarrow> Inr (Some r)))"

definition parse :: "('r \<Rightarrow> error + InputTextResult) \<Rightarrow> 'r option \<Rightarrow> error + InputTextResult option" where
  \<comment> \<open>\<^verbatim>\<open>await result?.json()\<close>\<close>
  "parse json result =
     (case result of
        None \<Rightarrow> Inr None
      | Some r \<Rightarrow> (case json r of Inl e \<Rightarrow> Inl e | Inr v \<Rightarrow> Inr (Some v)))"

subsection \<open>Submission: highlighting\<close>

definition wrap_span :: "nat \<Rightarrow> string \<Rightarrow> string" where
  \<open>wrap_span i text =
     ''<span id="'' @ toString i @ ''" class="border-b-2 border-red-400">'' @ text @ ''</span>''\<close>

text \<open>
  Reading and writing \<^verbatim>\<open>replaceMentTexts[i]\<close>. Beyond the end a read gives undefined,
  which the template prints as a word, and a write extends the array, leaving holes that
  \<^verbatim>\<open>join\<close> prints as empty strings. In the loop below every hole lies before the index
  that is read next, so a hole is kept as the empty string.
\<close>

definition load :: "string list \<Rightarrow> nat \<Rightarrow> string" where
  "load buf i = (if i < length buf then buf ! i else ''undefined'')"

definition store :: "string list \<Rightarrow> nat \<Rightarrow> string \<Rightarrow> string list" where
  "store buf i v =
     (if i < length buf then buf[i := v]
      else buf @ replicate (i - length buf) [] @ [v])"

text \<open>
  The loop over \<^verbatim>\<open>inputTextResults\<close> from position \<open>i\<close> on: an undefined entry is
  skipped; for the others the segment is wrapped when the gpt score is greater than the
  human score, and the position is written into the id of the result.
\<close>

fun highlight ::
  "nat \<Rightarrow> InputTextResult option list \<Rightarrow> string list \<Rightarrow>
     InputTextResult option list \<times> string list" where
  "highlight i [] buf = ([], buf)"
| "highlight i (None # rs) buf =
     (let (rs', buf') = highlight (Suc i) rs buf in (None # rs', buf'))"
| "highlight i (Some inputTextResult # rs) buf =
     (let buf1 = (if num_gt (gpt (score inputTextResult)) (human (score inputTextResult))
                  then store buf i (wrap_span i (load buf i))
                  else buf);
          (rs', buf') = highlight (Suc i) rs buf1
      in (Some (inputTextResult\<lparr>id' := toString i\<rparr>) # rs', buf'))"

definition truthy :: "'a option list \<Rightarrow> 'a list" where
  \<comment> \<open>\<^verbatim>\<open>inputTextResults.filter((inputTextResult) => inputTextResult)\<close>\<close>
  "truthy xs = List.map_filter (\<lambda>x. x) xs"

subsection \<open>Submission: the aggregate metrics\<close>

record totals =
  overallGptScore :: number
  overallHumanScore :: number
  overallMetrics :: OverallMetrics

definition totals0 :: totals where
  "totals0 =
     \<lparr>overallGptScore = Fin 0, overallHumanScore = Fin 0,
      overallMetrics = \<lparr>coherence = Fin 0, repetition = Fin 0, personality = Fin 0,
                        originality = Fin 0, errorTextCount = Fin 0\<rparr>\<rparr>"

definition accumulate :: "InputTextResult \<Rightarrow> totals \<Rightarrow> totals" where
  \<comment> \<open>the body of the \<^verbatim>\<open>forEach\<close>\<close>
  "accumulate result t =
     (if details result \<noteq> [] then
        (let m = overallMetrics t in
         \<lparr>overallGptScore = num_add (overallGptScore t) (or_zero (gpt (score result))),
          overallHumanScore = num_add (overallHumanScore t) (or_zero (human (score result))),
          overallMetrics =
            \<lparr>coherence = num_add (coherence m) (or_zero (coherence (metrics result))),
             repetition = num_add (repetition m) (or_zero (repetition (metrics result))),
             personality = num_add (personality m) (or_zero (personality (metrics result))),
             originality = num_add (originality m) (or_zero (originality (metrics result))),
             errorTextCount = num_add (errorTextCount m) (Fin 1)\<rparr>\<rparr>)
      else t)"

definition scale :: "OverallMetrics \<Rightarrow> OverallMetrics" where
  \<comment> \<open>the four assignments after the loop\<close>
  "scale m =
     \<lparr>coherence = num_mul (num_div (coherence m) (errorTextCount m)) (Fin 10),
      repetition = num_mul (num_div (repetition m) (errorTextCount m)) (Fin 10),
      personality = num_mul (num_div (personality m) (errorTextCount m)) (Fin 10),
      originality = num_mul (num_div (originality m) (errorTextCount m)) (Fin 10),
      errorTextCount = errorTextCount m\<rparr>"

definition rate :: "InputTextResult list \<Rightarrow> Rating" where
  \<comment> \<open>the \<^verbatim>\<open>rating\<close> written to the document\<close>
  "rate inputTextResults =
     (let t = fold accumulate inputTextResults totals0 in
      \<lparr>gpt = num_mul (num_div (overallGptScore t) (of_length inputTextResults)) (Fin 100),
       human = num_mul (num_div (overallHumanScore t) (of_length inputTextResults)) (Fin 100),
       metrics' = scale (overallMetrics t)\<rparr>)"

subsection \<open>Submission: the handler\<close>

definition on_results :: "string list \<Rightarrow> InputTextResult option list \<Rightarrow> state \<Rightarrow> state" where
  \<comment> \<open>the second \<^verbatim>\<open>then\<close>; a throw inside it reaches the \<^verbatim>\<open>catch\<close>\<close>
  "on_results replaceMentTexts inputTextResults st =
     (case innerHTML st of
        None \<Rightarrow> console_log TypeError st
      | Some _ \<Rightarrow>
          (let (inputTextResults, replaceMentTexts) =
                 highlight 0 inputTextResults replaceMentTexts;
               st = setInnerHTML (join_br replaceMentTexts) st;
               inputTextResults = truthy inputTextResults;
               st = setResults inputTextResults st;
               st = updateUserDocument
                      ((userDocument st)\<lparr>content := innerHTML_or_empty st,
                                          rating := rate inputTextResults,
                                          results := inputTextResults\<rparr>) st
           in setIsLoading False st))"

definition handleSubmit ::
  "(request \<Rightarrow> error + 'r) \<Rightarrow> ('r \<Rightarrow> error + InputTextResult) \<Rightarrow> state \<Rightarrow> state" where
  "handleSubmit fetch json st =
     (let input = innerHTML_or_empty st;
          input = strip_tags input;
          st = (case innerHTML st of None \<Rightarrow> st | Some _ \<Rightarrow> setInnerHTML input st);
          texts = texts_of input;
          replaceMentTexts = texts;
          calls = verifyTextApiCalls fetch texts;
          st = st\<lparr>trace := trace st @ dispatched calls\<rparr>;
          st = setIsLoading True st
      in case Promise_all (map settle calls) of
           Inl e \<Rightarrow> console_log e st
         | Inr responses \<Rightarrow>
             (case Promise_all (map (parse json) responses) of
                Inl e \<Rightarrow> console_log e st
              | Inr inputTextResults \<Rightarrow> on_results replaceMentTexts inputTextResults st))"

section \<open>The metrics panel (ResultMetrics.tsx)\<close>

text \<open>
  The panel shows the loader while the loading flag is set, and otherwise the overall score
  and one entry for every key of the metrics except \<^verbatim>\<open>errorTextCount\<close>, for which the
  expression is false and nothing is shown. \<^verbatim>\<open>toFixed\<close> is a parameter.
\<close>

datatype view =
    ResultMetricsLoader
  | Panel string "(string \<times> string) option list"

definition keys :: "OverallMetrics \<Rightarrow> (string \<times> number) list" where
  \<comment> \<open>\<^verbatim>\<open>Object.keys(metrics)\<close> with the values, in the order of creation\<close>
  "keys m =
     [(''coherence'', coherence m), (''repetition'', repetition m),
      (''personality'', personality m), (''originality'', originality m),
      (''errorTextCount'', errorTextCount m)]"

definition TextMetrics :: "(number \<Rightarrow> string) \<Rightarrow> bool \<Rightarrow> UserDocument \<Rightarrow> view" where
  "TextMetrics toFixed2 loading document =
     (let m = metrics' (rating document) in
      if loading then ResultMetricsLoader
      else Panel (toFixed2 (gpt (rating document)))
             (map (\<lambda>(metric, v). if metric \<noteq> ''errorTextCount'' then Some (metric, toFixed2 v) else None)
                (keys m)))"

section \<open>Notions of the specification and sample data\<close>

text \<open>
  The number of line-break markers in a string, counted as \<^const>\<open>split_br\<close> finds them:
  from left to right, without overlap.
\<close>

function count_br :: "string \<Rightarrow> nat" where
  "count_br [] = 0"
| "count_br (c # cs) =
     (if prefix br (c # cs) then Suc (count_br (drop (length br) (c # cs))) else count_br cs)"
  by pat_completeness auto
termination
  by (relation "measure length") (auto simp: br_def)

declare count_br.simps(2) [simp del]

text \<open>
  The sum of a score or metric over results, as the code adds it up: from zero, in the
  order of the results, every summand taken as \<^verbatim>\<open>x || 0\<close>. For every number but
  \<^verbatim>\<open>NaN\<close> that adds the same as the number itself.
\<close>

definition total :: "(InputTextResult \<Rightarrow> number) \<Rightarrow> InputTextResult list \<Rightarrow> number" where
  "total f rs = fold (\<lambda>r acc. num_add acc (or_zero (f r))) rs (Fin 0)"

text \<open>The results that contribute to the sums: those with a non-empty list of details.\<close>

definition contributing :: "InputTextResult list \<Rightarrow> InputTextResult list" where
  "contributing rs = filter (\<lambda>r. details r \<noteq> []) rs"

text \<open>A result is flagged when its gpt score is greater than its human score.\<close>

fun flagged :: "InputTextResult option \<Rightarrow> bool" where
  "flagged None \<longleftrightarrow> False"
| "flagged (Some r) \<longleftrightarrow> num_gt (gpt (score r)) (human (score r))"

definition stamp :: "nat \<Rightarrow> InputTextResult \<Rightarrow> InputTextResult" where
  "stamp i r = r\<lparr>id' := toString i\<rparr>"

text \<open>
  What the endpoint answers to a call, over both stages: the response is fetched and its
  body is parsed.
\<close>

definition outcome ::
  "(request \<Rightarrow> error + 'r) \<Rightarrow> ('r \<Rightarrow> error + InputTextResult) \<Rightarrow> request \<Rightarrow>
     error + InputTextResult" where
  "outcome fetch json body = (case fetch body of Inl e \<Rightarrow> Inl e | Inr r \<Rightarrow> json r)"

text \<open>The positions of the segments that are not empty, the segments with their positions,
  and the calls that are due for them.\<close>

definition nonempty_positions :: "string list \<Rightarrow> nat list" where
  "nonempty_positions texts = filter (\<lambda>i. texts ! i \<noteq> []) [0..<length texts]"

definition nonempty_segments :: "string list \<Rightarrow> (nat \<times> string) list" where
  "nonempty_segments texts = filter (\<lambda>(i, t). t \<noteq> []) (enumerate 0 texts)"

definition requests :: "string list \<Rightarrow> request list" where
  "requests texts = map (\<lambda>(i, t). \<lparr>req_id = i, req_data = t\<rparr>) (nonempty_segments texts)"

text \<open>Names for the parts of the handler: the awaited responses of the calls from position
  \<open>n\<close> on, the content that is rendered and the results that are published.\<close>

definition settled ::
  "(request \<Rightarrow> error + 'r) \<Rightarrow> nat \<Rightarrow> string list \<Rightarrow> error + 'r option list" where
  "settled fetch n texts =
     Promise_all (map settle (map (\<lambda>(idx, text). verifyText fetch idx text) (enumerate n texts)))"

definition rendered :: "string list \<Rightarrow> InputTextResult option list \<Rightarrow> string" where
  "rendered texts rs = join_br (snd (highlight 0 rs texts))"

definition published :: "string list \<Rightarrow> InputTextResult option list \<Rightarrow> InputTextResult list" where
  "published texts rs = truthy (fst (highlight 0 rs texts))"

text \<open>The parsed results of a submission in which the call for every non-empty segment
  at position \<open>i\<close> gives \<open>result i\<close>: the empty segments have an undefined entry.\<close>

definition answers ::
  "string list \<Rightarrow> (nat \<Rightarrow> InputTextResult) \<Rightarrow> InputTextResult option list" where
  "answers texts result =
     map (\<lambda>(i, t). if t = [] then None else Some (result i)) (enumerate 0 texts)"

fun is_Fetch :: "event \<Rightarrow> bool" where
  "is_Fetch (Fetch _) \<longleftrightarrow> True"
| "is_Fetch _ \<longleftrightarrow> False"

text \<open>
  Orders of effects: \<open>preceded P Q es\<close> holds when every effect of the kind \<open>Q\<close> in
  \<open>es\<close> comes after some effect of the kind \<open>P\<close>.
\<close>

fun is_SetIsLoading :: "bool \<Rightarrow> event \<Rightarrow> bool" where
  "is_SetIsLoading b (SetIsLoading b') \<longleftrightarrow> b = b'"
| "is_SetIsLoading b _ \<longleftrightarrow> False"

fun is_UpdateUserDocument :: "event \<Rightarrow> bool" where
  "is_UpdateUserDocument (UpdateUserDocument _) \<longleftrightarrow> True"
| "is_UpdateUserDocument _ \<longleftrightarrow> False"

fun preceded :: "(event \<Rightarrow> bool) \<Rightarrow> (event \<Rightarrow> bool) \<Rightarrow> event list \<Rightarrow> bool" where
  "preceded P Q [] \<longleftrightarrow> True"
| "preceded P Q (e # es) \<longleftrightarrow> (if P e then True else if Q e then False else preceded P Q es)"

definition rating0 :: Rating where
  "rating0 =
     \<lparr>gpt = Fin 0, human = Fin 0,
      metrics' = \<lparr>coherence = Fin 0, repetition = Fin 0, personality = Fin 0,
                  originality = Fin 0, errorTextCount = Fin 0\<rparr>\<rparr>"

definition paste_state :: state where
  "paste_state =
     \<lparr>innerHTML = Some ''Hi'', isLoading = False, shared_results = [],
      userDocument = \<lparr>content = ''Hi'', rating = rating0, results = []\<rparr>,
      trace = []\<rparr>"

definition plain_clipboard :: clipboardData where
  "plain_clipboard format =
     (if format = ''text/plain'' then [CHR ''a'', newline, CHR ''b''] else ''<i>a</i>'')"

definition markup_clipboard :: clipboardData where
  "markup_clipboard format = ''<br><b>''"

definition detailed_result :: InputTextResult where
  "detailed_result =
     \<lparr>id' = [], score = \<lparr>gpt = Fin (3 / 4), human = Fin (1 / 4)\<rparr>,
      metrics = \<lparr>coherence = Fin (1 / 2), repetition = Fin (1 / 4), personality = Fin (3 / 4),
                 originality = Fin 1\<rparr>,
      details = [''flag'']\<rparr>"

definition bare_result :: InputTextResult where
  "bare_result =
     \<lparr>id' = [], score = \<lparr>gpt = Fin (1 / 2), human = Fin (1 / 2)\<rparr>,
      metrics = \<lparr>coherence = Fin 1, repetition = Fin 1, personality = Fin 1,
                 originality = Fin 1\<rparr>,
      details = []\<rparr>"

definition submit_state :: state where
  "submit_state =
     \<lparr>innerHTML = Some ''ab<br><br>cd'', isLoading = False, shared_results = [],
      userDocument = \<lparr>content = ''ab<br><br>cd'', rating = rating0, results = []\<rparr>,
      trace = []\<rparr>"

text \<open>An endpoint that answers the call of the first segment with a flagged result and the
  others with a result that is not flagged, and an endpoint that is down.\<close>

definition echo_fetch :: "request \<Rightarrow> error + request" where
  "echo_fetch body = Inr body"

definition human_result :: InputTextResult where
  "human_result =
     \<lparr>id' = [], score = \<lparr>gpt = Fin (1 / 4), human = Fin (3 / 4)\<rparr>,
      metrics = \<lparr>coherence = Fin 1, repetition = Fin 1, personality = Fin 1,
                 originality = Fin 1\<rparr>,
      details = []\<rparr>"

definition sample_result :: "nat \<Rightarrow> InputTextResult" where
  "sample_result i = (if i = 0 then detailed_result else human_result)"

definition sample_json :: "request \<Rightarrow> error + InputTextResult" where
  "sample_json response = Inr (sample_result (req_id response))"

definition two_segments_state :: state where
  "two_segments_state =
     \<lparr>innerHTML = Some ''ab<br>cd'', isLoading = False, shared_results = [],
      userDocument = \<lparr>content = ''ab<br>cd'', rating = rating0, results = []\<rparr>,
      trace = []\<rparr>"

definition failing_fetch :: "request \<Rightarrow> error + request" where
  "failing_fetch body = Inl FetchError"

section \<open>Theorems\<close>

subsection \<open>Segmentation\<close>

lemma split_br_not_Nil: "split_br s \<noteq> []"
  by (induction s rule: split_br.induct) (auto simp: split_br.simps split: list.splits)

lemma join_br_Cons: "ws \<noteq> [] \<Longrightarrow> join_br (w # ws) = w @ br @ join_br ws"
  by (cases ws) auto

lemma join_br_Cons_char: "join_br ((c # w) # ws) = c # join_br (w # ws)"
  by (cases ws) auto

lemma join_split_br: "join_br (split_br s) = s"
proof (induction s rule: split_br.induct)
  case 1
  show ?case by simp
next
  case (2 c cs)
  show ?case
  proof (cases "prefix br (c # cs)")
    case True
    then have eq: "c # cs = br @ drop (length br) (c # cs)"
      by (metis append_eq_conv_conj prefix_def)
    have "join_br (split_br (c # cs)) = br @ join_br (split_br (drop (length br) (c # cs)))"
      using True by (simp add: split_br.simps join_br_Cons split_br_not_Nil)
    also have "\<dots> = br @ drop (length br) (c # cs)"
      using 2(1) True by simp
    finally show ?thesis using eq by simp
  next
    case False
    obtain w ws where sp: "split_br cs = w # ws"
      using split_br_not_Nil by (cases "split_br cs") auto
    have "join_br (split_br (c # cs)) = c # join_br (split_br cs)"
      using False sp by (simp add: split_br.simps join_br_Cons_char)
    then show ?thesis using 2(2) False by simp
  qed
qed

text \<open>
  Claim C3. Splitting a content string on the line-break marker, the empty string giving
  the empty sequence, and joining the segments with the marker gives the string back.
\<close>

theorem segmentation_round_trip: "join_br (texts_of C) = C"
  by (simp add: texts_of_def join_split_br)

subsection \<open>Stripping\<close>

lemmas tag_defs = match_tag_def open_tag_def close_tag_def tag_body_def br_ahead_def
  is_alpha_def until_gt_def

lemma strip_cleaned: "cleaned s \<Longrightarrow> strip_tags s = s"
  by (induction s) (auto simp: strip_tags.simps)

subsection \<open>Paste\<close>

lemma match_tag_other: "c \<noteq> CHR ''<'' \<Longrightarrow> match_tag (c # cs) = None"
  by (simp add: match_tag_def open_tag_def close_tag_def split: list.splits)

lemma match_tag_br: "match_tag (br @ s) = None"
  by (simp add: br_def tag_defs)

lemma cleaned_br: "cleaned (br @ s) = cleaned s"
  using match_tag_br [of s] by (simp add: br_def match_tag_other)

lemma cleaned_replace_newlines:
  "CHR ''<'' \<notin> set t \<Longrightarrow> cleaned (replace_newlines t)"
  by (induction t) (auto simp: cleaned_br match_tag_other)

lemma count_br_br: "count_br (br @ s) = Suc (count_br s)"
  by (simp add: br_def count_br.simps)

lemma count_br_other: "c \<noteq> CHR ''<'' \<Longrightarrow> count_br (c # cs) = count_br cs"
  by (simp add: br_def count_br.simps)

lemma count_br_replace_newlines:
  "CHR ''<'' \<notin> set t \<Longrightarrow> count_br (replace_newlines t) = count_list t newline"
proof (induction t)
  case Nil
  show ?case by simp
next
  case (Cons c t)
  then have "c \<noteq> CHR ''<''" by auto
  with Cons show ?case
    by (simp add: count_br_br count_br_other)
qed

lemma count_lt_replace_newlines:
  "CHR ''<'' \<notin> set t \<Longrightarrow>
   count_list (replace_newlines t) (CHR ''<'') = count_list t newline"
  by (induction t) (auto simp: br_def)

lemma handlePaste_mounted:
  "innerHTML st = Some h \<Longrightarrow>
   handlePaste (Some getData) st =
     Inr (st\<lparr>innerHTML := Some (h @ replace_newlines (getData ''text/plain'')),
             userDocument :=
               (userDocument st)\<lparr>content := h @ replace_newlines (getData ''text/plain'')\<rparr>,
             trace := trace st @
               [SetInnerHTML (h @ replace_newlines (getData ''text/plain'')),
                UpdateUserDocument
                  ((userDocument st)\<lparr>content := h @ replace_newlines (getData ''text/plain'')\<rparr>)]\<rparr>)"
  by (simp add: handlePaste_def Let_def setInnerHTML_def emit_def updateUserDocument_def
      innerHTML_or_empty_def)

text \<open>
  Pasted text that holds no \<^verbatim>\<open><\<close>: only the plain text of the clipboard is read, the
  inserted text holds one marker for each of its line feeds, every \<^verbatim>\<open><\<close> of the inserted
  text belongs to a marker, and the pattern of the tags matches nowhere in it. The inserted
  text is put behind the content of the surface, and the new content is written to the
  document.
\<close>

lemma paste_plain_text:
  assumes "CHR ''<'' \<notin> set (getData ''text/plain'')" and "innerHTML st = Some h"
  shows "\<exists>st' inserted.
           handlePaste (Some getData) st = Inr st'
         \<and> inserted = replace_newlines (getData ''text/plain'')
         \<and> count_br inserted = count_list (getData ''text/plain'') newline
         \<and> count_list inserted (CHR ''<'') = count_br inserted
         \<and> cleaned inserted
         \<and> innerHTML st' = Some (h @ inserted)
         \<and> userDocument st' = (userDocument st)\<lparr>content := h @ inserted\<rparr>
         \<and> (\<forall>getData'. getData' ''text/plain'' = getData ''text/plain'' \<longrightarrow>
               handlePaste (Some getData') st = Inr st')"
  using assms
  by (simp add: handlePaste_mounted count_br_replace_newlines count_lt_replace_newlines
      cleaned_replace_newlines)

lemma paste_plain_text_sample:
  "CHR ''<'' \<notin> set (plain_clipboard ''text/plain'')
   \<and> innerHTML paste_state = Some ''Hi''
   \<and> (\<exists>st'. handlePaste (Some plain_clipboard) paste_state = Inr st'
          \<and> count_br (replace_newlines (plain_clipboard ''text/plain'')) = 1
          \<and> innerHTML st' = Some ''Hia<br>b''
          \<and> content (userDocument st') = ''Hia<br>b'')"
proof -
  have 1: "CHR ''<'' \<notin> set (plain_clipboard ''text/plain'')"
    by (simp add: plain_clipboard_def newline_def)
  have 2: "innerHTML paste_state = Some ''Hi''"
    by (simp add: paste_state_def)
  have 3: "replace_newlines (plain_clipboard ''text/plain'') = ''a<br>b''"
    by (simp add: plain_clipboard_def newline_def br_def)
  have 4: "count_list (plain_clipboard ''text/plain'') newline = 1"
    by (simp add: plain_clipboard_def newline_def)
  from paste_plain_text [of plain_clipboard paste_state "''Hi''", OF 1 2] 1 2
  show ?thesis
    unfolding 3 4 by auto
qed

text \<open>
  Claim C7. The handler is to remove all html content from the clipboard, so that whatever
  is pasted, the inserted text holds as many markers as the pasted text has line feeds, and
  no other tag. The code reads the plain text and replaces its line feeds, but it puts the
  text into the markup of the surface as it is. For the plain text \<^verbatim>\<open><br><b>\<close>, which has no
  line feed, pasted behind \<^verbatim>\<open>Hi\<close>, the inserted text holds one marker and one tag.
\<close>

theorem paste_inserts_markup:
  "map_sum id innerHTML (handlePaste (Some markup_clipboard) paste_state)
     = Inr (Some (''Hi'' @ ''<br><b>''))
   \<and> markup_clipboard ''text/plain'' = ''<br><b>''
   \<and> count_list (markup_clipboard ''text/plain'') newline = 0
   \<and> count_br ''<br><b>'' = 1
   \<and> \<not> cleaned ''<br><b>''"
  by (simp add: handlePaste_mounted paste_state_def markup_clipboard_def newline_def
      count_br.simps br_def tag_defs)

subsection \<open>Stripping content that is not nested\<close>

text \<open>
  What the stripping leaves is cleaned when the content is not nested in the above sense, and
  then a second pass changes nothing.
\<close>

lemma until_gt_None: "until_gt s = None \<longleftrightarrow> CHR ''>'' \<notin> set s"
proof -
  have "until_gt s = None \<longleftrightarrow> dropWhile (\<lambda>c. c \<noteq> CHR ''>'') s = []"
    unfolding until_gt_def
    by (cases "dropWhile (\<lambda>c. c \<noteq> CHR ''>'') s")
       (simp_all only: list.case option.distinct list.distinct simp_thms)
  also have "\<dots> \<longleftrightarrow> (\<forall>c \<in> set s. c \<noteq> CHR ''>'')"
    by (rule dropWhile_eq_Nil_conv)
  finally show ?thesis by blast
qed

lemma until_gt_suffix: "until_gt s = Some rest \<Longrightarrow> suffix rest s"
proof -
  assume "until_gt s = Some rest"
  then have "rest = tl (dropWhile (\<lambda>c. c \<noteq> CHR ''>'') s)"
    by (auto simp: until_gt_def split: list.splits)
  then show ?thesis
    using suffix_order.trans [OF suffix_tl suffix_dropWhile, of "\<lambda>c. c \<noteq> CHR ''>''" s]
    by simp
qed

lemma tag_body_suffix: "tag_body s = Some rest \<Longrightarrow> suffix rest s"
proof -
  assume a: "tag_body s = Some rest"
  then obtain c cs where s: "s = c # cs" and "until_gt cs = Some rest"
    by (cases s) (auto simp: tag_body_def split: if_splits)
  then have "suffix rest cs" by (simp add: until_gt_suffix)
  then show ?thesis unfolding s by (rule suffix_ConsI)
qed

lemma open_tag_suffix: "open_tag s = Some rest \<Longrightarrow> suffix rest s"
proof -
  assume a: "open_tag s = Some rest"
  then obtain c cs where s: "s = c # cs" and "tag_body cs = Some rest"
    by (cases s) (auto simp: open_tag_def split: if_splits)
  then have "suffix rest cs" by (simp add: tag_body_suffix)
  then show ?thesis unfolding s by (rule suffix_ConsI)
qed

lemma close_tag_suffix: "close_tag s = Some rest \<Longrightarrow> suffix rest s"
proof -
  assume a: "close_tag s = Some rest"
  then obtain c d cs where s: "s = c # d # cs" and "tag_body cs = Some rest"
    by (cases s; cases "tl s") (auto simp: close_tag_def split: if_splits)
  then have "suffix rest cs" by (simp add: tag_body_suffix)
  then show ?thesis unfolding s by (intro suffix_ConsI)
qed

lemma match_tag_suffix: "match_tag s = Some rest \<Longrightarrow> suffix rest s"
  by (cases "open_tag s") (auto simp: match_tag_def open_tag_suffix close_tag_suffix)

lemma no_nested_suffix: "suffix r s \<Longrightarrow> no_nested s \<Longrightarrow> no_nested r"
  by (induction s) (auto simp: suffix_Cons split: if_splits)

lemma set_strip_tags: "set (strip_tags s) \<subseteq> set s"
proof (induction s rule: strip_tags.induct)
  case 1
  show ?case by simp
next
  case (2 c cs)
  show ?case
  proof (cases "match_tag (c # cs)")
    case None
    with 2(1) show ?thesis by (auto simp: strip_tags.simps)
  next
    case (Some rest)
    from match_tag_suffix [OF Some] have "set rest \<subseteq> set (c # cs)"
      by (rule set_mono_suffix)
    with 2(2) [OF Some] Some show ?thesis by (auto simp: strip_tags.simps)
  qed
qed

lemma strip_tags_Cons_other:
  "c \<noteq> CHR ''<'' \<Longrightarrow> strip_tags (c # cs) = c # strip_tags cs"
  by (simp add: strip_tags.simps match_tag_other)

lemma tag_body_strip:
  assumes "tag_body x = None" and "x = [] \<or> hd x \<noteq> CHR ''<''"
  shows "tag_body (strip_tags x) = None"
proof (cases x)
  case Nil
  then show ?thesis by (simp add: tag_body_def br_ahead_def)
next
  case (Cons d ds)
  with assms(2) have d: "d \<noteq> CHR ''<''" by simp
  then have s: "strip_tags x = d # strip_tags ds"
    by (simp add: Cons strip_tags_Cons_other)
  show ?thesis
  proof (cases "br_ahead x")
    case True
    then obtain r es where ds: "ds = r # es" and b: "d = CHR ''b'' \<or> d = CHR ''B''"
      and r: "r = CHR ''r'' \<or> r = CHR ''R''"
      by (auto simp: br_ahead_def Cons split: list.splits)
    from r have "strip_tags ds = r # strip_tags es"
      unfolding ds by (intro strip_tags_Cons_other) auto
    with b r show ?thesis
      by (simp add: s tag_body_def br_ahead_def)
  next
    case False
    with assms(1) have "\<not> is_alpha d \<or> until_gt ds = None"
      by (auto simp: tag_body_def Cons split: if_splits)
    then have "\<not> is_alpha d \<or> until_gt (strip_tags ds) = None"
      using set_strip_tags [of ds] by (auto simp: until_gt_None)
    then show ?thesis
      by (auto simp: s tag_body_def)
  qed
qed

lemma match_tag_strip:
  assumes "no_nested (c # cs)" and "match_tag (c # cs) = None"
  shows "match_tag (c # strip_tags cs) = None"
proof (cases "c = CHR ''<''")
  case False
  then show ?thesis by (rule match_tag_other)
next
  case True
  from assms(1) True have h: "cs = [] \<or> hd cs \<noteq> CHR ''<''"
    by (cases cs) (auto split: if_splits)
  from assms(2) True have o: "tag_body cs = None"
    by (simp add: match_tag_def open_tag_def split: option.splits)
  have 1: "open_tag (c # strip_tags cs) = None"
    using tag_body_strip [OF o h] True by (simp add: open_tag_def)
  have 2: "close_tag (c # strip_tags cs) = None"
  proof (cases cs)
    case Nil
    then show ?thesis by (simp add: close_tag_def)
  next
    case (Cons d u)
    with h have d: "d \<noteq> CHR ''<''" by simp
    then have s: "strip_tags cs = d # strip_tags u"
      by (simp add: Cons strip_tags_Cons_other)
    show ?thesis
    proof (cases "d = CHR ''/''")
      case False
      then show ?thesis by (simp add: s close_tag_def)
    next
      case slash: True
      from assms(2) True Cons slash have "tag_body u = None"
        by (simp add: match_tag_def close_tag_def split: option.splits)
      moreover from assms(1) True Cons slash have "u = [] \<or> hd u \<noteq> CHR ''<''"
        by (cases u) (auto split: if_splits)
      ultimately have "tag_body (strip_tags u) = None"
        by (rule tag_body_strip)
      then show ?thesis by (simp add: s close_tag_def)
    qed
  qed
  from 1 2 show ?thesis by (simp add: match_tag_def)
qed

lemma strip_tags_cleaned: "no_nested s \<Longrightarrow> cleaned (strip_tags s)"
proof (induction s rule: strip_tags.induct)
  case 1
  show ?case by simp
next
  case (2 c cs)
  show ?case
  proof (cases "match_tag (c # cs)")
    case None
    from 2(3) have "no_nested cs" by (auto split: if_splits)
    with 2(1) [OF None] have "cleaned (strip_tags cs)" .
    moreover have "match_tag (c # strip_tags cs) = None"
      using 2(3) None by (rule match_tag_strip)
    ultimately show ?thesis
      using None by (simp add: strip_tags.simps)
  next
    case (Some rest)
    from match_tag_suffix [OF Some] 2(3) have "no_nested rest"
      by (rule no_nested_suffix)
    with 2(2) [OF Some] Some show ?thesis
      by (simp add: strip_tags.simps)
  qed
qed

text \<open>
  Claim C6. Stripping is idempotent on content that satisfies the invariant: on content that
  is cleaned already, and on content whose tags are not nested, which is what the component
  writes itself, markers and wrappers of flagged segments. There one pass removes every tag,
  what it leaves is cleaned, and stripping it again changes nothing: stripping twice is
  stripping once.
\<close>

theorem strip_idempotent:
  assumes "no_nested s \<or> cleaned s"
  shows "cleaned (strip_tags s) \<and> strip_tags (strip_tags s) = strip_tags s"
proof -
  from assms have "cleaned (strip_tags s)"
    by (auto simp: strip_tags_cleaned strip_cleaned)
  then show ?thesis
    by (simp add: strip_cleaned)
qed

theorem strip_idempotent_witness:
  \<open>no_nested ''<span id="0" class="border-b-2 border-red-400">ab</span><br>cd''
   \<and> \<not> cleaned ''<span id="0" class="border-b-2 border-red-400">ab</span><br>cd''
   \<and> strip_tags ''<span id="0" class="border-b-2 border-red-400">ab</span><br>cd'' = ''ab<br>cd''
   \<and> cleaned ''ab<br>cd''
   \<and> strip_tags ''ab<br>cd'' = ''ab<br>cd''\<close>
proof -
  have n: \<open>no_nested ''<span id="0" class="border-b-2 border-red-400">ab</span><br>cd''\<close>
    by simp
  have c: \<open>\<not> cleaned ''<span id="0" class="border-b-2 border-red-400">ab</span><br>cd''\<close>
    by (simp add: tag_defs)
  have s: \<open>strip_tags ''<span id="0" class="border-b-2 border-red-400">ab</span><br>cd'' =
      ''ab<br>cd''\<close>
    by (simp add: strip_tags.simps tag_defs)
  from strip_idempotent [OF disjI1, OF n]
  have i: \<open>cleaned ''ab<br>cd'' \<and> strip_tags ''ab<br>cd'' = ''ab<br>cd''\<close>
    unfolding s .
  show ?thesis
    by (rule i n c s conjI)+
qed

text \<open>
  The invariant is needed: in nested content a tag can be put together from the two sides
  of a stripped one, and only the second pass removes it.
\<close>

lemma strip_twice_differs:
  "strip_tags ''<<a>b>'' = ''<b>''" "strip_tags (strip_tags ''<<a>b>'') = []"
  by (simp_all add: strip_tags.simps tag_defs)

subsection \<open>Aggregation\<close>

text \<open>Rounding: every double is its own rounding, so counting is exact.\<close>

lemma ilog2_less:
  "0 < x \<Longrightarrow> x < 2 powi k \<Longrightarrow> ilog2 x < k"
proof (induction x arbitrary: k rule: ilog2.induct)
  case (1 x)
  show ?case
  proof (cases "2 \<le> x")
    case True
    have "(2 powi k :: rat) = 2 * 2 powi (k - 1)"
      using power_int_add_1' [of "2::rat" "k - 1"] by simp
    with 1(4) have "x / 2 < 2 powi (k - 1)" by simp
    with 1(1) [of "k - 1"] 1(3) True have "ilog2 (x / 2) < k - 1" by simp
    with True 1(3) show ?thesis by (subst ilog2.simps) simp
  next
    case False
    show ?thesis
    proof (cases "x < 1")
      case True
      have "(2 powi (k + 1) :: rat) = 2 * 2 powi k"
        using power_int_add_1' [of "2::rat" k] by simp
      with 1(4) have "x * 2 < 2 powi (k + 1)" by simp
      with 1(2) [of "k + 1"] 1(3) False True have "ilog2 (x * 2) < k + 1" by simp
      with True False 1(3) show ?thesis by (subst ilog2.simps) simp
    next
      case ge: False
      have "0 < k"
      proof (rule ccontr)
        assume "\<not> 0 < k"
        then have "2 powi k \<le> (1::rat)"
          by (simp add: power_int_def field_simps)
        with 1(4) ge show False by simp
      qed
      with ge False 1(3) show ?thesis by (subst ilog2.simps) simp
    qed
  qed
qed

lemma round_half_even_of_int: "round_half_even (of_int m) = m"
  by (simp add: round_half_even_def)

lemma round64_exact:
  assumes m: "m \<noteq> 0" "\<bar>m\<bar> < 2 ^ 53" and e: "- 1074 \<le> e"
    and r: "\<bar>of_int m * 2 powi e\<bar> < (2 powi 1024 :: rat)"
  shows "round64 (of_int m * 2 powi e) = Fin (of_int m * 2 powi e)"
proof -
  define x :: rat where "x = of_int m * 2 powi e"
  define u where "u = max (ilog2 \<bar>x\<bar>) (- 1022) - 52"
  have x0: "x \<noteq> 0" using m(1) by (simp add: x_def)
  have "\<bar>x\<bar> = of_int \<bar>m\<bar> * 2 powi e"
    by (simp add: x_def abs_mult)
  also have "\<dots> < 2 ^ 53 * 2 powi e"
  proof -
    have "(of_int \<bar>m\<bar> :: rat) < of_int (2 ^ 53)"
      using m(2) by (simp only: of_int_less_iff)
    then show ?thesis by simp
  qed
  also have "\<dots> = 2 powi (53 + e)"
    by (simp add: power_int_add)
  finally have "ilog2 \<bar>x\<bar> < 53 + e"
    using x0 by (intro ilog2_less) simp_all
  with e have "u \<le> e" by (simp add: u_def)
  then obtain d where d: "e = u + int d"
    by (metis zle_iff_zadd)
  have p: "(2 powi e :: rat) = 2 powi u * 2 ^ d"
    by (simp add: d power_int_add)
  have nz: "(2 powi u :: rat) \<noteq> 0" by simp
  have q: "x / 2 powi u = of_int (m * 2 ^ d)"
    using nz by (simp add: x_def p)
  have "of_int (round_half_even (x / 2 powi u)) * 2 powi u = x"
    unfolding q round_half_even_of_int by (simp add: x_def p)
  then have "round64 x = Fin x"
    using x0 r by (simp add: round64_def Let_def u_def [symmetric] x_def [symmetric])
  then show ?thesis by (simp add: x_def)
qed

lemma round64_of_nat:
  assumes "0 < n" "n < 2 ^ 53"
  shows "round64 (of_nat n) = Fin (of_nat n)"
proof -
  have "\<bar>int n\<bar> < 2 ^ 53" using assms(2) by (metis abs_of_nat of_nat_less_numeral_power_cancel_iff)
  moreover have "\<bar>of_int (int n) * 2 powi 0\<bar> < (2 powi 1024 :: rat)"
  proof -
    have "(of_nat n :: rat) < 2 ^ 53" using assms(2)
      by (metis of_nat_less_numeral_power_cancel_iff)
    also have "\<dots> < 2 ^ 1024" by (rule power_strict_increasing) simp_all
    finally show ?thesis by simp
  qed
  ultimately have "round64 (of_int (int n) * 2 powi 0) = Fin (of_int (int n) * 2 powi 0)"
    using assms(1) by (intro round64_exact) simp_all
  then show ?thesis by simp
qed

lemma num_add_count:
  assumes "Suc k < 2 ^ 53"
  shows "num_add (Fin (of_nat k)) (Fin 1) = Fin (of_nat (Suc k))"
proof -
  have "(of_nat k :: rat) + 1 \<noteq> 0"
    using of_nat_0_le_iff [of k, where 'a = rat] by linarith
  then show ?thesis
    using round64_of_nat [of "Suc k"] assms by (simp add: num_add_def add.commute)
qed

text \<open>
  A summand \<^verbatim>\<open>x || 0\<close> adds what \<open>x\<close> adds, unless \<open>x\<close> is \<^verbatim>\<open>NaN\<close>; the sum of the
  code never is \<^verbatim>\<open>-0\<close>, which a double sum from \<^verbatim>\<open>+0\<close> cannot become.
\<close>

lemma num_add_or_zero:
  "x \<noteq> NaN \<Longrightarrow> acc \<noteq> NegZero \<Longrightarrow> num_add acc (or_zero x) = num_add acc x"
  by (cases x; cases acc) (auto simp: num_add_def or_zero_def zero_def)

lemma fold_accumulate:
  "k + length (contributing rs) < 2 ^ 53 \<Longrightarrow>
   fold accumulate rs
     \<lparr>overallGptScore = g, overallHumanScore = h,
      overallMetrics = \<lparr>coherence = c, repetition = r, personality = p,
                        originality = q, errorTextCount = Fin (of_nat k)\<rparr>\<rparr> =
     \<lparr>overallGptScore =
        fold (\<lambda>x acc. num_add acc (or_zero (gpt (score x)))) (contributing rs) g,
      overallHumanScore =
        fold (\<lambda>x acc. num_add acc (or_zero (human (score x)))) (contributing rs) h,
      overallMetrics =
        \<lparr>coherence =
           fold (\<lambda>x acc. num_add acc (or_zero (coherence (metrics x)))) (contributing rs) c,
         repetition =
           fold (\<lambda>x acc. num_add acc (or_zero (repetition (metrics x)))) (contributing rs) r,
         personality =
           fold (\<lambda>x acc. num_add acc (or_zero (personality (metrics x)))) (contributing rs) p,
         originality =
           fold (\<lambda>x acc. num_add acc (or_zero (originality (metrics x)))) (contributing rs) q,
         errorTextCount = Fin (of_nat (k + length (contributing rs)))\<rparr>\<rparr>"
proof (induction rs arbitrary: g h c r p q k)
  case Nil
  show ?case by (simp add: contributing_def)
next
  case (Cons x rs)
  show ?case
  proof (cases "details x = []")
    case True
    with Cons.prems have "k + length (contributing rs) < 2 ^ 53"
      by (simp add: contributing_def)
    from Cons.IH [OF this] True show ?thesis
      by (simp add: accumulate_def contributing_def)
  next
    case False
    with Cons.prems have l: "Suc k + length (contributing rs) < 2 ^ 53"
      by (simp add: contributing_def)
    then have "Suc k < 2 ^ 53" by simp
    then have n: "num_add (Fin (of_nat k)) (Fin 1) = Fin (of_nat (Suc k))"
      by (rule num_add_count)
    from Cons.IH [OF l] False show ?thesis
      by (simp add: accumulate_def contributing_def n Let_def)
  qed
qed

subsection \<open>The highlighting loop\<close>

lemma highlight_fst:
  "fst (highlight i rs buf) = map (\<lambda>(j, r). map_option (stamp j) r) (enumerate i rs)"
  by (induction i rs buf rule: highlight.induct)
     (auto simp: stamp_def Let_def split: prod.splits)

lemma highlight_snd_length:
  "i + length rs \<le> length buf \<Longrightarrow> length (snd (highlight i rs buf)) = length buf"
  by (induction i rs buf rule: highlight.induct)
     (auto simp: Let_def store_def split: prod.splits)

lemma highlight_snd_nth:
  "i + length rs \<le> length buf \<Longrightarrow> j < length buf \<Longrightarrow>
   snd (highlight i rs buf) ! j =
     (if i \<le> j \<and> j < i + length rs \<and> flagged (rs ! (j - i)) then wrap_span j (buf ! j)
      else buf ! j)"
proof (induction i rs buf rule: highlight.induct)
  case (1 i buf)
  show ?case by auto
next
  case (2 i rs buf)
  then have "snd (highlight (Suc i) rs buf) ! j =
     (if Suc i \<le> j \<and> j < Suc i + length rs \<and> flagged (rs ! (j - Suc i))
      then wrap_span j (buf ! j) else buf ! j)"
    by simp
  then show ?case
    by (cases "j = i") (auto simp: Let_def nth_Cons' split: prod.splits)
next
  case (3 i r rs buf)
  let ?buf1 = "if num_gt (gpt (score r)) (human (score r))
               then store buf i (wrap_span i (load buf i)) else buf"
  from 3 have i: "i < length buf" by simp
  then have len: "length ?buf1 = length buf"
    by (simp add: store_def)
  have ih: "snd (highlight (Suc i) rs ?buf1) ! j =
     (if Suc i \<le> j \<and> j < Suc i + length rs \<and> flagged (rs ! (j - Suc i))
      then wrap_span j (?buf1 ! j) else ?buf1 ! j)"
    using 3 len by simp
  have b1: "?buf1 ! j = (if j = i \<and> flagged (Some r) then wrap_span i (buf ! i) else buf ! j)"
    using i 3(3) by (auto simp: store_def load_def)
  have eq: "snd (highlight i (Some r # rs) buf) = snd (highlight (Suc i) rs ?buf1)"
    by (simp add: Let_def split: prod.splits)
  show ?case
    unfolding eq ih b1
    by (cases "j = i") (auto simp: nth_Cons')
qed

subsection \<open>The calls and the promise chain\<close>

lemma verifyText_simps:
  "verifyText fetch i [] = None"
  "t \<noteq> [] \<Longrightarrow>
   verifyText fetch i t = Some (\<lparr>req_id = i, req_data = t\<rparr>, fetch \<lparr>req_id = i, req_data = t\<rparr>)"
  by (simp_all add: verifyText_def Let_def)

lemma dispatched_simps:
  "dispatched [] = []"
  "dispatched (None # cs) = dispatched cs"
  "dispatched (Some (body, p) # cs) = Fetch body # dispatched cs"
  by (simp_all add: dispatched_def List.map_filter_def)

lemma dispatched_enumerate:
  "dispatched (map (\<lambda>(idx, text). verifyText fetch idx text) (enumerate n texts)) =
   map (\<lambda>(i, t). Fetch \<lparr>req_id = i, req_data = t\<rparr>) (filter (\<lambda>(i, t). t \<noteq> []) (enumerate n texts))"
  by (induction texts arbitrary: n) (simp_all add: verifyText_simps dispatched_simps)

lemma dispatched_calls:
  "dispatched (verifyTextApiCalls fetch texts) = map Fetch (requests texts)"
  unfolding verifyTextApiCalls_def dispatched_enumerate requests_def nonempty_segments_def
  by (simp add: case_prod_unfold comp_def)

lemma settled_Nil: "settled fetch n [] = Inr []"
  by (simp add: settled_def)

lemma settled_Cons:
  "settled fetch n (x # xs) =
     (case (if x = [] then Inr None
            else (case fetch \<lparr>req_id = n, req_data = x\<rparr> of
                    Inl e \<Rightarrow> Inl e | Inr r \<Rightarrow> Inr (Some r))) of
        Inl e \<Rightarrow> Inl e
      | Inr v \<Rightarrow> (case settled fetch (Suc n) xs of Inl e \<Rightarrow> Inl e | Inr vs \<Rightarrow> Inr (v # vs)))"
  unfolding settled_def
  by (cases "x = []") (simp_all add: verifyText_simps settle_def del: map_map)

lemma parse_simps:
  "parse json None = Inr None"
  "parse json (Some r) = (case json r of Inl e \<Rightarrow> Inl e | Inr v \<Rightarrow> Inr (Some v))"
  by (simp_all add: parse_def)

lemma verify_success:
  assumes "\<forall>(i, t) \<in> set (enumerate n texts).
             t \<noteq> [] \<longrightarrow> outcome fetch json \<lparr>req_id = i, req_data = t\<rparr> = Inr (result i)"
  shows "\<exists>responses.
           settled fetch n texts = Inr responses
         \<and> Promise_all (map (parse json) responses) =
             Inr (map (\<lambda>(i, t). if t = [] then None else Some (result i)) (enumerate n texts))"
  using assms
proof (induction texts arbitrary: n)
  case Nil
  show ?case by (simp add: settled_Nil)
next
  case (Cons x xs)
  from Cons.prems have "\<forall>(i, t) \<in> set (enumerate (Suc n) xs).
      t \<noteq> [] \<longrightarrow> outcome fetch json \<lparr>req_id = i, req_data = t\<rparr> = Inr (result i)"
    by simp
  from Cons.IH [OF this] obtain responses where
    r1: "settled fetch (Suc n) xs = Inr responses"
    and r2: "Promise_all (map (parse json) responses) =
             Inr (map (\<lambda>(i, t). if t = [] then None else Some (result i)) (enumerate (Suc n) xs))"
    by blast
  show ?case
  proof (cases "x = []")
    case True
    then show ?thesis
      using r1 r2 by (simp add: settled_Cons parse_simps)
  next
    case False
    with Cons.prems have "outcome fetch json \<lparr>req_id = n, req_data = x\<rparr> = Inr (result n)"
      by simp
    then obtain resp where "fetch \<lparr>req_id = n, req_data = x\<rparr> = Inr resp"
      and "json resp = Inr (result n)"
      by (auto simp: outcome_def split: sum.splits)
    then show ?thesis
      using False r1 r2 by (simp add: settled_Cons parse_simps)
  qed
qed

lemma verify_failure:
  assumes "(i, t) \<in> set (enumerate n texts)" and "t \<noteq> []"
    and "outcome fetch json \<lparr>req_id = i, req_data = t\<rparr> = Inl e0"
  shows "\<exists>e. (case settled fetch n texts of
               Inl e' \<Rightarrow> Inl e'
             | Inr responses \<Rightarrow> Promise_all (map (parse json) responses)) = Inl e"
  using assms
proof (induction texts arbitrary: n)
  case Nil
  then show ?case by simp
next
  case (Cons x xs)
  show ?case
  proof (cases "(i, t) = (n, x)")
    case True
    with Cons.prems show ?thesis
      by (auto simp: settled_Cons parse_simps outcome_def split: sum.splits)
  next
    case False
    with Cons.prems have "(i, t) \<in> set (enumerate (Suc n) xs)" by auto
    from Cons.IH [OF this Cons.prems(2,3)] show ?thesis
      by (auto simp: settled_Cons parse_simps split: sum.splits)
  qed
qed

lemma on_results_mounted:
  assumes "innerHTML st = Some h"
  shows "on_results texts rs st =
     st\<lparr>innerHTML := Some (rendered texts rs),
        isLoading := False,
        shared_results := published texts rs,
        userDocument := (userDocument st)\<lparr>content := rendered texts rs,
                                          rating := rate (published texts rs),
                                          results := published texts rs\<rparr>,
        trace := trace st @
          [SetInnerHTML (rendered texts rs),
           SetResults (published texts rs),
           UpdateUserDocument ((userDocument st)\<lparr>content := rendered texts rs,
                                                 rating := rate (published texts rs),
                                                 results := published texts rs\<rparr>),
           SetIsLoading False]\<rparr>"
  using assms
  by (simp add: on_results_def rendered_def published_def Let_def setInnerHTML_def emit_def
      setResults_def updateUserDocument_def setIsLoading_def innerHTML_or_empty_def
      split: prod.splits)

lemma handleSubmit_mounted:
  assumes "innerHTML st = Some h"
  shows "handleSubmit fetch json st =
     (let input = strip_tags h;
          texts = texts_of input;
          st3 = st\<lparr>innerHTML := Some input, isLoading := True,
                   trace := trace st @ [SetInnerHTML input] @ map Fetch (requests texts) @
                            [SetIsLoading True]\<rparr>
      in case settled fetch 0 texts of
           Inl e \<Rightarrow> console_log e st3
         | Inr responses \<Rightarrow>
             (case Promise_all (map (parse json) responses) of
                Inl e \<Rightarrow> console_log e st3
              | Inr inputTextResults \<Rightarrow> on_results texts inputTextResults st3))"
  using assms dispatched_calls [of fetch "texts_of (strip_tags h)"]
  unfolding settled_def verifyTextApiCalls_def
  by (simp add: handleSubmit_def Let_def innerHTML_or_empty_def setInnerHTML_def emit_def
      setIsLoading_def verifyTextApiCalls_def del: map_map split: sum.splits)


subsection \<open>A submission whose calls succeed\<close>

lemma truthy_simps:
  "truthy [] = []" "truthy (None # xs) = truthy xs" "truthy (Some x # xs) = x # truthy xs"
  by (simp_all add: truthy_def List.map_filter_def)

lemma truthy_map:
  "truthy (map (\<lambda>(j, r). map_option (f j) r) xs) =
   map (\<lambda>(j, r). f j (the r)) (filter (\<lambda>(j, r). r \<noteq> None) xs)"
  by (induction xs) (auto simp: truthy_simps)

lemma enumerate_as_map: "enumerate n xs = map (\<lambda>i. (n + i, xs ! i)) [0..<length xs]"
  by (rule nth_equalityI) (simp_all add: nth_enumerate_eq)

lemma nonempty_segments_positions:
  "nonempty_segments texts = map (\<lambda>i. (i, texts ! i)) (nonempty_positions texts)"
  by (simp add: nonempty_segments_def nonempty_positions_def enumerate_as_map filter_map comp_def)

lemma requests_positions:
  "requests texts = map (\<lambda>i. \<lparr>req_id = i, req_data = texts ! i\<rparr>) (nonempty_positions texts)"
  by (simp add: requests_def nonempty_segments_positions comp_def)

lemma answers_length: "length (answers texts result) = length texts"
  by (simp add: answers_def)

lemma answers_nth:
  "i < length texts \<Longrightarrow>
   answers texts result ! i = (if texts ! i = [] then None else Some (result i))"
  by (simp add: answers_def nth_enumerate_eq)

lemma published_answers:
  "published texts (answers texts result) =
   map (\<lambda>i. stamp i (result i)) (nonempty_positions texts)"
proof -
  have "published texts (answers texts result) =
        map (\<lambda>(j, r). stamp j (the r))
          (filter (\<lambda>(j, r). r \<noteq> None) (enumerate 0 (answers texts result)))"
    by (simp add: published_def highlight_fst truthy_map)
  also have "enumerate 0 (answers texts result) =
        map (\<lambda>i. (i, if texts ! i = [] then None else Some (result i))) [0..<length texts]"
    by (simp add: enumerate_as_map answers_length answers_nth)
  finally show ?thesis
    by (simp add: filter_map comp_def nonempty_positions_def)
qed

lemma rendered_buffer:
  assumes "length rs = length texts"
  shows "rendered texts rs =
     join_br (map (\<lambda>i. if flagged (rs ! i) then wrap_span i (texts ! i) else texts ! i)
                [0..<length texts])"
proof -
  have "snd (highlight 0 rs texts) =
        map (\<lambda>i. if flagged (rs ! i) then wrap_span i (texts ! i) else texts ! i) [0..<length texts]"
    using assms
    by (intro nth_equalityI) (simp_all add: highlight_snd_length highlight_snd_nth)
  then show ?thesis by (simp add: rendered_def)
qed

lemma digit_code: "d < 10 \<Longrightarrow> of_char (digit d) = 48 + d"
proof -
  assume "d < 10"
  then have "d \<in> {0, 1, 2, 3, 4, 5, 6, 7, 8, 9}" by auto
  then show ?thesis by (auto simp: digit_def)
qed

lemma digit_inj: "d < 10 \<Longrightarrow> d' < 10 \<Longrightarrow> digit d = digit d' \<Longrightarrow> d = d'"
  by (metis digit_code add_left_cancel)

lemma toString_not_Nil: "toString n \<noteq> []"
  by (subst toString.simps) simp

lemma toString_inj: "toString a = toString b \<Longrightarrow> a = b"
proof (induction a arbitrary: b rule: toString.induct)
  case (1 a)
  show ?case
  proof (cases "a < 10")
    case True
    then have ta: "toString a = [digit a]" by (subst toString.simps) simp
    show ?thesis
    proof (cases "b < 10")
      case True
      then have "toString b = [digit b]" by (subst toString.simps) simp
      with ta 1(2) \<open>a < 10\<close> True show ?thesis by (auto dest: digit_inj)
    next
      case False
      then have "toString b = toString (b div 10) @ [digit (b mod 10)]"
        by (subst toString.simps) simp
      with ta 1(2) show ?thesis
        by (simp add: toString_not_Nil toString_not_Nil [symmetric])
    qed
  next
    case False
    then have ta: "toString a = toString (a div 10) @ [digit (a mod 10)]"
      by (subst toString.simps) simp
    show ?thesis
    proof (cases "b < 10")
      case True
      then have "toString b = [digit b]" by (subst toString.simps) simp
      with ta 1(2) show ?thesis
        by (simp add: toString_not_Nil toString_not_Nil [symmetric])
    next
      case b: False
      then have "toString b = toString (b div 10) @ [digit (b mod 10)]"
        by (subst toString.simps) simp
      with ta 1(2) have e1: "toString (a div 10) = toString (b div 10)"
        and e2: "digit (a mod 10) = digit (b mod 10)" by simp_all
      from 1(1) [OF False e1] have "a div 10 = b div 10" .
      moreover from e2 have "a mod 10 = b mod 10"
        by (rule digit_inj [rotated 2]) simp_all
      ultimately show ?thesis by (metis div_mult_mod_eq)
    qed
  qed
qed


subsection \<open>The handler of the submission, case by case\<close>

lemma handleSubmit_unmounted:
  assumes "innerHTML st = None"
  shows "handleSubmit fetch json st =
     st\<lparr>isLoading := True, trace := trace st @ [SetIsLoading True, ConsoleLog TypeError]\<rparr>"
  using assms
  by (simp add: handleSubmit_def Let_def innerHTML_or_empty_def texts_of_def verifyTextApiCalls_def
      dispatched_simps setIsLoading_def emit_def on_results_def console_log_def)

lemma handleSubmit_success:
  assumes "innerHTML st = Some h" and "texts = texts_of (strip_tags h)"
    and ok: "\<forall>i \<in> set (nonempty_positions texts).
               outcome fetch json \<lparr>req_id = i, req_data = texts ! i\<rparr> = Inr (result i)"
  shows "handleSubmit fetch json st =
     st\<lparr>innerHTML := Some (rendered texts (answers texts result)),
        isLoading := False,
        shared_results := published texts (answers texts result),
        userDocument := (userDocument st)\<lparr>content := rendered texts (answers texts result),
                                          rating := rate (published texts (answers texts result)),
                                          results := published texts (answers texts result)\<rparr>,
        trace := trace st @ [SetInnerHTML (strip_tags h)] @ map Fetch (requests texts) @
          [SetIsLoading True,
           SetInnerHTML (rendered texts (answers texts result)),
           SetResults (published texts (answers texts result)),
           UpdateUserDocument
             ((userDocument st)\<lparr>content := rendered texts (answers texts result),
                                 rating := rate (published texts (answers texts result)),
                                 results := published texts (answers texts result)\<rparr>),
           SetIsLoading False]\<rparr>"
proof -
  have "\<forall>(i, t) \<in> set (enumerate 0 texts).
          t \<noteq> [] \<longrightarrow> outcome fetch json \<lparr>req_id = i, req_data = t\<rparr> = Inr (result i)"
    using ok by (auto simp: in_set_enumerate_eq nonempty_positions_def)
  from verify_success [OF this] obtain responses where
    r1: "settled fetch 0 texts = Inr responses"
    and r2: "Promise_all (map (parse json) responses) = Inr (answers texts result)"
    by (auto simp: answers_def)
  let ?st3 = "st\<lparr>innerHTML := Some (strip_tags h), isLoading := True,
                   trace := trace st @ [SetInnerHTML (strip_tags h)] @ map Fetch (requests texts) @
                            [SetIsLoading True]\<rparr>"
  have step: "handleSubmit fetch json st = on_results texts (answers texts result) ?st3"
    using r1 r2 assms(2) by (simp add: handleSubmit_mounted [OF assms(1)] Let_def)
  show ?thesis
    unfolding step by (simp add: on_results_mounted [where h = "strip_tags h"])
qed

lemma handleSubmit_failure:
  assumes "innerHTML st = Some h" and "texts = texts_of (strip_tags h)"
    and "i < length texts" and "texts ! i \<noteq> []"
    and "outcome fetch json \<lparr>req_id = i, req_data = texts ! i\<rparr> = Inl e0"
  shows "\<exists>e. handleSubmit fetch json st =
     st\<lparr>innerHTML := Some (strip_tags h), isLoading := True,
        trace := trace st @ [SetInnerHTML (strip_tags h)] @ map Fetch (requests texts) @
                 [SetIsLoading True, ConsoleLog e]\<rparr>"
proof -
  have "(i, texts ! i) \<in> set (enumerate 0 texts)"
    using assms(3) by (simp add: in_set_enumerate_eq)
  from verify_failure [OF this assms(4,5)] obtain e where
    "(case settled fetch 0 texts of
        Inl e' \<Rightarrow> Inl e'
      | Inr responses \<Rightarrow> Promise_all (map (parse json) responses)) = Inl e"
    by blast
  then have "handleSubmit fetch json st =
     st\<lparr>innerHTML := Some (strip_tags h), isLoading := True,
        trace := trace st @ [SetInnerHTML (strip_tags h)] @ map Fetch (requests texts) @
                 [SetIsLoading True, ConsoleLog e]\<rparr>"
    using assms(2)
    by (auto simp: handleSubmit_mounted [OF assms(1)] Let_def console_log_def emit_def
        split: sum.splits)
  then show ?thesis by blast
qed

lemma handleSubmit_cases:
  assumes "innerHTML st = Some h" and "texts = texts_of (strip_tags h)"
  shows "(\<exists>e. handleSubmit fetch json st =
            st\<lparr>innerHTML := Some (strip_tags h), isLoading := True,
               trace := trace st @ [SetInnerHTML (strip_tags h)] @ map Fetch (requests texts) @
                        [SetIsLoading True, ConsoleLog e]\<rparr>)
       \<or> (\<exists>rs. handleSubmit fetch json st =
            st\<lparr>innerHTML := Some (rendered texts rs),
               isLoading := False,
               shared_results := published texts rs,
               userDocument := (userDocument st)\<lparr>content := rendered texts rs,
                                                 rating := rate (published texts rs),
                                                 results := published texts rs\<rparr>,
               trace := trace st @ [SetInnerHTML (strip_tags h)] @ map Fetch (requests texts) @
                 [SetIsLoading True,
                  SetInnerHTML (rendered texts rs),
                  SetResults (published texts rs),
                  UpdateUserDocument
                    ((userDocument st)\<lparr>content := rendered texts rs,
                                        rating := rate (published texts rs),
                                        results := published texts rs\<rparr>),
                  SetIsLoading False]\<rparr>)"
  using assms(2)
  by (auto simp: handleSubmit_mounted [OF assms(1)] Let_def console_log_def emit_def
      on_results_mounted [where h = "strip_tags h"] split: sum.splits)

lemma preceded_skip:
  "\<forall>e \<in> set xs. \<not> P e \<and> \<not> Q e \<Longrightarrow> preceded P Q (xs @ ys) = preceded P Q ys"
  by (induction xs) auto

lemma handleSubmit_effects:
  "\<exists>pre tail.
     trace (handleSubmit fetch json st) =
       trace st @ pre @ map Fetch (requests (texts_of (strip_tags (innerHTML_or_empty st))))
         @ [SetIsLoading True] @ tail
   \<and> (pre = [] \<or> pre = [SetInnerHTML (strip_tags (innerHTML_or_empty st))])
   \<and> ((\<exists>e. tail = [ConsoleLog e])
      \<or> (\<exists>rs d. tail = [SetInnerHTML (content d), SetResults rs, UpdateUserDocument d,
                          SetIsLoading False]
               \<and> rating d = rate rs \<and> results d = rs))"
proof (cases "innerHTML st")
  case None
  then have e: "innerHTML_or_empty st = []" by (simp add: innerHTML_or_empty_def)
  have r: "requests (texts_of (strip_tags [])) = []"
    by (simp add: texts_of_def requests_def nonempty_segments_def)
  show ?thesis
    unfolding handleSubmit_unmounted [OF None] e r
    by (rule exI [of _ "[]"], rule exI [of _ "[ConsoleLog TypeError]"]) simp
next
  case (Some h)
  then have e: "innerHTML_or_empty st = h" by (simp add: innerHTML_or_empty_def)
  from handleSubmit_cases [OF Some refl, of fetch json]
  show ?thesis
  proof (elim disjE exE)
    fix e'
    assume "handleSubmit fetch json st =
      st\<lparr>innerHTML := Some (strip_tags h), isLoading := True,
         trace := trace st @ [SetInnerHTML (strip_tags h)] @
                  map Fetch (requests (texts_of (strip_tags h))) @
                  [SetIsLoading True, ConsoleLog e']\<rparr>"
    then have tr: "trace (handleSubmit fetch json st) =
        trace st @ [SetInnerHTML (strip_tags h)] @
          map Fetch (requests (texts_of (strip_tags h))) @ [SetIsLoading True] @ [ConsoleLog e']"
      by simp
    show ?thesis
      unfolding e tr
      by (rule exI [of _ "[SetInnerHTML (strip_tags h)]"], rule exI [of _ "[ConsoleLog e']"])
         simp
  next
    fix rs
    let ?texts = "texts_of (strip_tags h)"
    let ?d = "(userDocument st)\<lparr>content := rendered ?texts rs,
                 rating := rate (published ?texts rs), results := published ?texts rs\<rparr>"
    let ?tail = "[SetInnerHTML (content ?d), SetResults (published ?texts rs),
                  UpdateUserDocument ?d, SetIsLoading False]"
    assume "handleSubmit fetch json st =
      st\<lparr>innerHTML := Some (rendered ?texts rs), isLoading := False,
         shared_results := published ?texts rs,
         userDocument := ?d,
         trace := trace st @ [SetInnerHTML (strip_tags h)] @ map Fetch (requests ?texts) @
           [SetIsLoading True, SetInnerHTML (rendered ?texts rs),
            SetResults (published ?texts rs), UpdateUserDocument ?d, SetIsLoading False]\<rparr>"
    then have tr: "trace (handleSubmit fetch json st) =
        trace st @ [SetInnerHTML (strip_tags h)] @ map Fetch (requests ?texts) @
          [SetIsLoading True] @ ?tail"
      by simp
    have d: "rating ?d = rate (published ?texts rs)" "results ?d = published ?texts rs"
      by simp_all
    have "\<exists>rs' d'. ?tail = [SetInnerHTML (content d'), SetResults rs', UpdateUserDocument d',
                              SetIsLoading False]
                   \<and> rating d' = rate rs' \<and> results d' = rs'"
      using d by blast
    then show ?thesis
      unfolding e tr
      by (intro exI [of _ "[SetInnerHTML (strip_tags h)]"] exI [of _ ?tail] conjI disjI2)
         (simp_all only: simp_thms)
  qed
qed

subsection \<open>Splitting the rendered content again\<close>

lemma split_br_Cons_other:
  "\<not> prefix br (c # cs) \<Longrightarrow>
   split_br (c # cs) = (case split_br cs of [] \<Rightarrow> [[c]] | w # ws \<Rightarrow> (c # w) # ws)"
  by (simp add: split_br.simps)

lemma split_br_br: "split_br (br @ r) = [] # split_br r"
  by (simp add: br_def split_br.simps)

lemma no_straddle:
  "x \<noteq> [] \<Longrightarrow> \<not> prefix br x \<Longrightarrow> \<not> prefix br (x @ CHR ''<'' # r)"
proof -
  assume x: "x \<noteq> []" and n: "\<not> prefix br x"
  show ?thesis
  proof (cases x)
    case Nil
    with x show ?thesis by simp
  next
    case c1: (Cons a1 x1)
    show ?thesis
    proof (cases x1)
      case Nil
      with c1 show ?thesis by (simp add: br_def)
    next
      case c2: (Cons a2 x2)
      show ?thesis
      proof (cases x2)
        case Nil
        with c1 c2 show ?thesis by (simp add: br_def)
      next
        case c3: (Cons a3 x3)
        show ?thesis
        proof (cases x3)
          case Nil
          with c1 c2 c3 show ?thesis by (simp add: br_def)
        next
          case (Cons a4 x4)
          with c1 c2 c3 n show ?thesis by (simp add: br_def)
        qed
      qed
    qed
  qed
qed

lemma split_br_single_Cons:
  assumes "split_br (c # x) = [c # x]"
  shows "\<not> prefix br (c # x)" and "split_br x = [x]"
proof -
  show np: "\<not> prefix br (c # x)"
    using assms by (auto simp: split_br.simps)
  from assms np show "split_br x = [x]"
    by (auto simp: split_br.simps split: list.splits)
qed

lemma split_br_before_lt:
  "split_br x = [x] \<Longrightarrow>
   split_br (x @ CHR ''<'' # r) =
     (case split_br (CHR ''<'' # r) of [] \<Rightarrow> [x] | w # ws \<Rightarrow> (x @ w) # ws)"
proof (induction x)
  case Nil
  show ?case by (simp add: split_br_not_Nil split: list.splits)
next
  case (Cons c x)
  from split_br_single_Cons [OF Cons.prems]
  have np: "\<not> prefix br (c # x)" and sx: "split_br x = [x]" by simp_all
  from no_straddle [OF _ np, of r] have "\<not> prefix br (c # x @ CHR ''<'' # r)" by simp
  then have "split_br ((c # x) @ CHR ''<'' # r) =
      (case split_br (x @ CHR ''<'' # r) of [] \<Rightarrow> [[c]] | w # ws \<Rightarrow> (c # w) # ws)"
    by (simp add: split_br_Cons_other)
  then show ?case
    by (simp add: Cons.IH [OF sx] split: list.splits)
qed

lemma split_br_before_br:
  "split_br x = [x] \<Longrightarrow> split_br (x @ br @ r) = x # split_br r"
  using split_br_before_lt [of x "''br>'' @ r"] split_br_br [of r]
  by (simp add: br_def)

lemma split_join_br:
  "xs \<noteq> [] \<Longrightarrow> \<forall>x \<in> set xs. split_br x = [x] \<Longrightarrow> split_br (join_br xs) = xs"
proof (induction xs rule: join_br.induct)
  case 1
  then show ?case by simp
next
  case (2 x)
  then show ?case by simp
next
  case (3 x y ys)
  then show ?case by (simp add: split_br_before_br)
qed

lemma split_br_hd_prefix: "\<exists>rest. s = hd (split_br s) @ rest"
proof -
  obtain w ws where sp: "split_br s = w # ws"
    using split_br_not_Nil by (cases "split_br s") auto
  have "join_br (w # ws) = s" using join_split_br [of s] sp by simp
  then show ?thesis
    using sp by (cases ws) auto
qed

lemma split_br_segments: "\<forall>t \<in> set (split_br s). split_br t = [t]"
proof (induction s rule: split_br.induct)
  case 1
  show ?case by simp
next
  case (2 c cs)
  show ?case
  proof (cases "prefix br (c # cs)")
    case True
    with 2(1) show ?thesis by (simp add: split_br.simps)
  next
    case False
    obtain w ws where sp: "split_br cs = w # ws"
      using split_br_not_Nil by (cases "split_br cs") auto
    from split_br_hd_prefix [of cs] sp obtain rest where cs: "cs = w @ rest" by auto
    have "\<not> prefix br (c # w)"
    proof
      assume "prefix br (c # w)"
      then have "prefix br ((c # w) @ rest)" by (rule prefix_prefix)
      with cs False show False by simp
    qed
    moreover from 2(2) [OF False] sp have "split_br w = [w]" "\<forall>t \<in> set ws. split_br t = [t]"
      by simp_all
    ultimately show ?thesis
      using False sp by (simp add: split_br.simps)
  qed
qed


lemma split_br_no_lt:
  "CHR ''<'' \<notin> set a \<Longrightarrow>
   split_br (a @ y) = (case split_br y of [] \<Rightarrow> [a] | w # ws \<Rightarrow> (a @ w) # ws)"
proof (induction a)
  case Nil
  show ?case by (simp add: split_br_not_Nil split: list.splits)
next
  case (Cons c a)
  then have "\<not> prefix br (c # a @ y)" by (auto simp: br_def)
  then have "split_br ((c # a) @ y) =
      (case split_br (a @ y) of [] \<Rightarrow> [[c]] | w # ws \<Rightarrow> (c # w) # ws)"
    by (simp add: split_br_Cons_other)
  with Cons show ?case
    by (simp split: list.splits)
qed

lemma digit_not_lt: "d < 10 \<Longrightarrow> digit d \<noteq> CHR ''<''"
proof
  assume "d < 10" and "digit d = CHR ''<''"
  then have "of_char (digit d) = (60::nat)" by simp
  with \<open>d < 10\<close> show False by (simp add: digit_code)
qed

lemma toString_no_lt: "CHR ''<'' \<notin> set (toString n)"
proof (induction n rule: toString.induct)
  case (1 n)
  show ?case
  proof (cases "n < 10")
    case True
    then show ?thesis
      using digit_not_lt [of n] by (subst toString.simps) auto
  next
    case False
    then show ?thesis
      using 1 digit_not_lt [of "n mod 10"] by (subst toString.simps) auto
  qed
qed

lemma split_br_wrap_span:
  assumes "split_br t = [t]"
  shows "split_br (wrap_span i t) = [wrap_span i t]"
proof -
  let ?a = \<open>''span id="'' @ toString i @ ''" class="border-b-2 border-red-400">''\<close>
  have w: "wrap_span i t = CHR ''<'' # ?a @ t @ ''</span>''"
    by (simp add: wrap_span_def)
  have 1: "split_br (t @ ''</span>'') = [t @ ''</span>'']"
    using split_br_before_lt [OF assms, of "''/span>''"]
    by (simp add: split_br.simps br_def)
  have "CHR ''<'' \<notin> set ?a"
    using toString_no_lt [of i] by simp
  from split_br_no_lt [OF this, of "t @ ''</span>''"]
  have 2: "split_br (?a @ t @ ''</span>'') = [?a @ t @ ''</span>'']"
    by (simp add: 1)
  have "\<not> prefix br (CHR ''<'' # ?a @ t @ ''</span>'')"
    by (simp add: br_def)
  from split_br_Cons_other [OF this] show ?thesis
    by (simp only: w 2 list.case)
qed

lemma texts_of_segments: "\<forall>t \<in> set (texts_of s). split_br t = [t]"
  using split_br_segments [of s] by (simp add: texts_of_def)

lemma texts_of_not_empty_segment: "texts_of s \<noteq> [[]]"
proof
  assume a: "texts_of s = [[]]"
  then have "s \<noteq> []" by (auto simp: texts_of_def)
  moreover from a have "join_br (texts_of s) = []" by simp
  ultimately show False by (simp add: texts_of_def join_split_br)
qed

lemma join_br_Nil_iff: "join_br xs = [] \<longleftrightarrow> xs = [] \<or> xs = [[]]"
  by (induction xs rule: join_br.induct) (auto simp: br_def)

lemma texts_of_join_br:
  assumes "\<forall>x \<in> set xs. split_br x = [x]" and "xs \<noteq> [[]]"
  shows "texts_of (join_br xs) = xs"
proof (cases "xs = []")
  case True
  then show ?thesis by (simp add: texts_of_def)
next
  case False
  with assms(2) have "join_br xs \<noteq> []" by (simp add: join_br_Nil_iff)
  then show ?thesis
    using split_join_br [OF False assms(1)] by (simp add: texts_of_def)
qed

lemma rendered_resplit:
  assumes "length rs = length (texts_of s)"
  shows "texts_of (join_br (snd (highlight 0 rs (texts_of s)))) = snd (highlight 0 rs (texts_of s))"
proof -
  let ?texts = "texts_of s"
  let ?buf = "snd (highlight 0 rs ?texts)"
  have len: "length ?buf = length ?texts"
    using assms by (simp add: highlight_snd_length)
  have nth: "?buf ! i = (if flagged (rs ! i) then wrap_span i (?texts ! i) else ?texts ! i)"
    if "i < length ?texts" for i
    using that assms by (simp add: highlight_snd_nth)
  have seg: "split_br (?texts ! i) = [?texts ! i]" if "i < length ?texts" for i
    using that texts_of_segments [of s] by simp
  have "\<forall>x \<in> set ?buf. split_br x = [x]"
    unfolding all_set_conv_all_nth len
    by (auto simp: nth seg split_br_wrap_span)
  moreover have "?buf \<noteq> [[]]"
  proof
    assume b: "?buf = [[]]"
    with len have l: "length ?texts = 1" by simp
    then have "?buf ! 0 = (if flagged (rs ! 0) then wrap_span 0 (?texts ! 0) else ?texts ! 0)"
      by (simp add: nth)
    with b have "?texts ! 0 = []"
      by (auto simp: wrap_span_def split: if_splits)
    with l have "?texts = [[]]"
      by (cases ?texts) auto
    then show False by (simp add: texts_of_not_empty_segment)
  qed
  ultimately show ?thesis by (rule texts_of_join_br)
qed

subsection \<open>The sample submission\<close>

lemma filter_is_Fetch:
  "filter is_Fetch (map Fetch xs) = map Fetch xs"
  by (induction xs) auto

lemma answers_result_length: "length (snd (highlight 0 (answers texts result) texts)) = length texts"
  by (simp add: highlight_snd_length answers_length)

lemma sample_texts: "texts_of (strip_tags ''ab<br><br>cd'') = [''ab'', [], ''cd'']"
  by (simp add: texts_of_def strip_tags.simps split_br.simps tag_defs br_def)

lemma sample_positions: "nonempty_positions [''ab'', [], ''cd''] = [0, 2]"
  by (simp add: nonempty_positions_def upt_rec)

lemma sample_outcome: "outcome echo_fetch sample_json body = Inr (sample_result (req_id body))"
  by (simp add: outcome_def echo_fetch_def sample_json_def)

lemma nonempty_positions_nth:
  "k < length (nonempty_positions texts) \<Longrightarrow>
   nonempty_positions texts ! k < length texts \<and> texts ! (nonempty_positions texts ! k) \<noteq> []"
proof -
  assume "k < length (nonempty_positions texts)"
  then have "nonempty_positions texts ! k \<in> set (nonempty_positions texts)"
    by (rule nth_mem)
  then show ?thesis by (simp add: nonempty_positions_def)
qed

lemma nonempty_positions_length: "length (nonempty_positions texts) \<le> length texts"
  using length_filter_le [of "\<lambda>i. texts ! i \<noteq> []" "[0..<length texts]"]
  by (simp add: nonempty_positions_def)

lemma nonempty_positions_all:
  assumes "[] \<notin> set texts"
  shows "nonempty_positions texts = [0..<length texts]"
proof -
  have "\<forall>i<length texts. texts ! i \<noteq> []"
    using assms by (metis nth_mem)
  then show ?thesis
    by (simp add: nonempty_positions_def filter_id_conv)
qed

lemma wrap_span_differs: "wrap_span i t \<noteq> t"
proof
  assume "wrap_span i t = t"
  then have "length (wrap_span i t) = length t" by simp
  then show False by (simp add: wrap_span_def)
qed

lemma two_texts: "texts_of (strip_tags ''ab<br>cd'') = [''ab'', ''cd'']"
  by (simp add: texts_of_def strip_tags.simps split_br.simps tag_defs br_def)

lemma sample_requests:
  "requests [''ab'', [], ''cd''] =
     [\<lparr>req_id = 0, req_data = ''ab''\<rparr>, \<lparr>req_id = 2, req_data = ''cd''\<rparr>]"
  by (simp add: requests_positions sample_positions)

section \<open>The claims about the submission\<close>

subsection \<open>Aggregate metrics\<close>

lemma sample_arithmetic:
  "num_add (Fin 0) (Fin (3 / 4)) = Fin (3 / 4)"
  "num_add (Fin 0) (Fin (1 / 4)) = Fin (1 / 4)"
  "num_add (Fin 0) (Fin (1 / 2)) = Fin (1 / 2)"
  "num_add (Fin (3 / 4)) (Fin (1 / 2)) = Fin (5 / 4)"
  "num_div (Fin (3 / 4)) (Fin 2) = Fin (3 / 8)"
  "num_div (Fin (5 / 4)) (Fin 2) = Fin (5 / 8)"
  "num_div (Fin (1 / 4)) (Fin 2) = Fin (1 / 8)"
  "num_div (Fin (1 / 2)) (Fin 1) = Fin (1 / 2)"
  "num_mul (Fin (3 / 8)) (Fin 100) = Fin (75 / 2)"
  "num_mul (Fin (5 / 8)) (Fin 100) = Fin (125 / 2)"
  "num_mul (Fin (1 / 8)) (Fin 100) = Fin (25 / 2)"
  "num_mul (Fin (1 / 2)) (Fin 10) = Fin 5"
  using round64_exact [of 3 "- 2"] round64_exact [of 1 "- 2"] round64_exact [of 1 "- 1"]
    round64_exact [of 5 "- 2"] round64_exact [of 3 "- 3"] round64_exact [of 5 "- 3"]
    round64_exact [of 1 "- 3"] round64_exact [of 75 "- 1"] round64_exact [of 125 "- 1"]
    round64_exact [of 25 "- 1"] round64_exact [of 5 0]
  by (simp_all add: num_add_def num_div_def num_mul_def)

text \<open>
  Claim C1, as stated: the overall gpt and human percentages are the sums of the scores
  over all filtered results, divided by the number of filtered results, times one hundred.
  The loop adds the scores of the contributing results only. With one contributing result
  of gpt score 0.75 and one result without details of gpt score 0.5, the handler gives
  37.5, and the sum over both results gives 62.5. All these numbers are doubles and every
  step is exact.
\<close>

theorem aggregate_all_results_counterexample:
  "gpt (rate [detailed_result, bare_result]) = Fin (75 / 2)
   \<and> num_mul (num_div (total (\<lambda>r. gpt (score r)) [detailed_result, bare_result])
                (of_length [detailed_result, bare_result])) (Fin 100) = Fin (125 / 2)
   \<and> gpt (rate [detailed_result, bare_result]) \<noteq>
       num_mul (num_div (total (\<lambda>r. gpt (score r)) [detailed_result, bare_result])
                (of_length [detailed_result, bare_result])) (Fin 100)"
proof -
  have z: "or_zero (Fin (3 / 4)) = Fin (3 / 4)" "or_zero (Fin (1 / 2)) = Fin (1 / 2)"
    by (simp_all add: or_zero_def)
  have 1: "gpt (rate [detailed_result, bare_result]) = Fin (75 / 2)"
    by (simp add: rate_def totals0_def accumulate_def of_length_def detailed_result_def
        bare_result_def Let_def z sample_arithmetic)
  have 2: "num_mul (num_div (total (\<lambda>r. gpt (score r)) [detailed_result, bare_result])
                (of_length [detailed_result, bare_result])) (Fin 100) = Fin (125 / 2)"
    by (simp add: total_def of_length_def detailed_result_def bare_result_def z
        sample_arithmetic)
  show ?thesis unfolding 1 2 by simp
qed

text \<open>
  Claim C1, amended. When exactly \<open>K\<close> of the filtered results have a non-empty list of
  details, each of the four sub-metrics is the sum of that metric over the \<open>K\<close>
  contributing results, divided by \<open>K\<close>, times ten, and the overall gpt and human
  percentages are the sums of the scores over the \<open>K\<close> contributing results, divided by
  the number of all filtered results, times one hundred. Sums, quotients and products are
  those of doubles: a sum starts from zero, runs in the order of the results and takes a
  summand that is zero or \<^verbatim>\<open>NaN\<close> as zero, as \<^verbatim>\<open>|| 0\<close> does. The results are the
  elements of an array, which has fewer than \<open>2\<^sup>3\<^sup>2\<close> of them, so that the two counts
  are exact.
\<close>

theorem aggregate_metrics:
  assumes "length rs < 2 ^ 32"
  shows "rate rs =
     \<lparr>gpt = num_mul (num_div (total (\<lambda>r. gpt (score r)) (contributing rs))
                               (of_length rs)) (Fin 100),
      human = num_mul (num_div (total (\<lambda>r. human (score r)) (contributing rs))
                                 (of_length rs)) (Fin 100),
      metrics' =
        \<lparr>coherence =
           num_mul (num_div (total (\<lambda>r. coherence (metrics r)) (contributing rs))
                            (of_length (contributing rs))) (Fin 10),
         repetition =
           num_mul (num_div (total (\<lambda>r. repetition (metrics r)) (contributing rs))
                            (of_length (contributing rs))) (Fin 10),
         personality =
           num_mul (num_div (total (\<lambda>r. personality (metrics r)) (contributing rs))
                            (of_length (contributing rs))) (Fin 10),
         originality =
           num_mul (num_div (total (\<lambda>r. originality (metrics r)) (contributing rs))
                            (of_length (contributing rs))) (Fin 10),
         errorTextCount = of_length (contributing rs)\<rparr>\<rparr>"
proof -
  have "length (contributing rs) \<le> length rs"
    by (simp add: contributing_def)
  moreover have "(2::nat) ^ 32 < 2 ^ 53"
    by (rule power_strict_increasing) simp_all
  ultimately have "0 + length (contributing rs) < 2 ^ 53"
    using assms by simp
  from fold_accumulate [OF this, of "Fin 0" "Fin 0" "Fin 0" "Fin 0" "Fin 0" "Fin 0"]
  show ?thesis
    by (simp add: rate_def totals0_def Let_def scale_def of_length_def total_def)
qed

theorem aggregate_metrics_witness:
  "length [detailed_result, bare_result] < 2 ^ 32
   \<and> contributing [detailed_result, bare_result] = [detailed_result]
   \<and> gpt (rate [detailed_result, bare_result]) = Fin (75 / 2)
   \<and> human (rate [detailed_result, bare_result]) = Fin (25 / 2)
   \<and> coherence (metrics' (rate [detailed_result, bare_result])) = Fin 5"
proof -
  have l: "length [detailed_result, bare_result] < 2 ^ 32"
    by simp
  have c: "contributing [detailed_result, bare_result] = [detailed_result]"
    by (simp add: contributing_def detailed_result_def bare_result_def)
  have z: "or_zero (Fin (3 / 4)) = Fin (3 / 4)" "or_zero (Fin (1 / 4)) = Fin (1 / 4)"
    "or_zero (Fin (1 / 2)) = Fin (1 / 2)"
    by (simp_all add: or_zero_def)
  have t: "total (\<lambda>r. gpt (score r)) [detailed_result] = Fin (3 / 4)"
    "total (\<lambda>r. human (score r)) [detailed_result] = Fin (1 / 4)"
    "total (\<lambda>r. coherence (metrics r)) [detailed_result] = Fin (1 / 2)"
    by (simp_all add: total_def detailed_result_def z sample_arithmetic)
  show ?thesis
    using l c by (simp add: aggregate_metrics [OF l] t of_length_def sample_arithmetic)
qed

subsection \<open>The empty surface\<close>

text \<open>
  Claim C5. Submitting an empty surface gives no segment and no call; the empty collection
  of results is published; the divisions by zero give \<^verbatim>\<open>NaN\<close>, nothing is thrown and
  so nothing is logged, and the handler runs to its end.
\<close>

theorem empty_surface_submitted:
  "texts_of (strip_tags []) = []
   \<and> handleSubmit fetch json
       \<lparr>innerHTML = Some [], isLoading = l, shared_results = rs, userDocument = d, trace = es\<rparr> =
     \<lparr>innerHTML = Some [], isLoading = False, shared_results = [],
      userDocument =
        d\<lparr>content := [],
          rating := \<lparr>gpt = NaN, human = NaN,
                      metrics' = \<lparr>coherence = NaN, repetition = NaN, personality = NaN,
                                  originality = NaN, errorTextCount = Fin 0\<rparr>\<rparr>,
          results := []\<rparr>,
      trace = es @
        [SetInnerHTML [], SetIsLoading True, SetInnerHTML [], SetResults [],
         UpdateUserDocument
           (d\<lparr>content := [],
              rating := \<lparr>gpt = NaN, human = NaN,
                          metrics' = \<lparr>coherence = NaN, repetition = NaN, personality = NaN,
                                      originality = NaN, errorTextCount = Fin 0\<rparr>\<rparr>,
              results := []\<rparr>),
         SetIsLoading False]\<rparr>"
  by (simp add: handleSubmit_def Let_def innerHTML_or_empty_def texts_of_def
      verifyTextApiCalls_def dispatched_simps setInnerHTML_def setIsLoading_def emit_def
      on_results_def truthy_simps setResults_def updateUserDocument_def rate_def totals0_def
      scale_def of_length_def num_div_def num_mul_def)

subsection \<open>Calls and empty segments\<close>

text \<open>
  Claim C4. On submission one call is issued for every segment that is not empty, with the
  position of the segment as id and its text as data, and no call for an empty segment,
  whether the calls succeed or not. When they succeed, the published results hold one entry
  for every non-empty segment and none for an empty one, while the empty segment keeps its
  position: the new content is the join of a buffer that has one entry for every segment,
  empty or not, at the position of the segment; the entry of an empty segment is empty, the
  entry of any other segment is its text, wrapped when its result is flagged; and splitting
  the new content again gives exactly this buffer, so the empty segment is found at the same
  position in the displayed content.
\<close>

theorem calls_for_nonempty_segments:
  assumes m: "innerHTML st = Some h" and t: "texts = texts_of (strip_tags h)"
  shows "filter is_Fetch (drop (length (trace st)) (trace (handleSubmit fetch json st))) =
           map (\<lambda>i. Fetch \<lparr>req_id = i, req_data = texts ! i\<rparr>) (nonempty_positions texts)
       \<and> ((\<forall>i \<in> set (nonempty_positions texts).
              outcome fetch json \<lparr>req_id = i, req_data = texts ! i\<rparr> = Inr (result i)) \<longrightarrow>
            shared_results (handleSubmit fetch json st) =
              map (\<lambda>i. (result i)\<lparr>id' := toString i\<rparr>) (nonempty_positions texts)
          \<and> (\<exists>buf. innerHTML (handleSubmit fetch json st) = Some (join_br buf)
                  \<and> texts_of (join_br buf) = buf
                  \<and> length buf = length texts
                  \<and> (\<forall>i<length texts. texts ! i = [] \<longrightarrow> buf ! i = [])
                  \<and> (\<forall>i<length texts. buf ! i =
                        (if texts ! i \<noteq> []
                            \<and> num_gt (gpt (score (result i))) (human (score (result i)))
                         then wrap_span i (texts ! i) else texts ! i))))"
proof (intro conjI impI)
  from handleSubmit_cases [OF m t, of fetch json]
  show "filter is_Fetch (drop (length (trace st)) (trace (handleSubmit fetch json st))) =
           map (\<lambda>i. Fetch \<lparr>req_id = i, req_data = texts ! i\<rparr>) (nonempty_positions texts)"
    by (auto simp: filter_is_Fetch requests_positions comp_def)
next
  assume ok: "\<forall>i \<in> set (nonempty_positions texts).
              outcome fetch json \<lparr>req_id = i, req_data = texts ! i\<rparr> = Inr (result i)"
  note eq = handleSubmit_success [OF m t ok]
  show "shared_results (handleSubmit fetch json st) =
              map (\<lambda>i. (result i)\<lparr>id' := toString i\<rparr>) (nonempty_positions texts)"
    by (simp add: eq published_answers stamp_def)
  let ?buf = "snd (highlight 0 (answers texts result) texts)"
  have 1: "innerHTML (handleSubmit fetch json st) = Some (join_br ?buf)"
    by (simp add: eq rendered_def)
  have 2: "texts_of (join_br ?buf) = ?buf"
    unfolding t by (simp add: rendered_resplit answers_length)
  have 3: "length ?buf = length texts"
    by (rule answers_result_length)
  have 4: "\<forall>i<length texts. texts ! i = [] \<longrightarrow> ?buf ! i = []"
    by (simp add: highlight_snd_nth answers_length answers_nth)
  have 5: "\<forall>i<length texts. ?buf ! i =
                        (if texts ! i \<noteq> []
                            \<and> num_gt (gpt (score (result i))) (human (score (result i)))
                         then wrap_span i (texts ! i) else texts ! i)"
    by (simp add: highlight_snd_nth answers_length answers_nth)
  from 1 2 3 4 5
  show "\<exists>buf. innerHTML (handleSubmit fetch json st) = Some (join_br buf)
                  \<and> texts_of (join_br buf) = buf
                  \<and> length buf = length texts
                  \<and> (\<forall>i<length texts. texts ! i = [] \<longrightarrow> buf ! i = [])
                  \<and> (\<forall>i<length texts. buf ! i =
                        (if texts ! i \<noteq> []
                            \<and> num_gt (gpt (score (result i))) (human (score (result i)))
                         then wrap_span i (texts ! i) else texts ! i))"
    by blast
qed

theorem calls_for_nonempty_segments_witness:
  \<open>innerHTML submit_state = Some ''ab<br><br>cd''
   \<and> [''ab'', [], ''cd''] = texts_of (strip_tags ''ab<br><br>cd'')
   \<and> filter is_Fetch (trace (handleSubmit echo_fetch sample_json submit_state)) =
       [Fetch \<lparr>req_id = 0, req_data = ''ab''\<rparr>, Fetch \<lparr>req_id = 2, req_data = ''cd''\<rparr>]
   \<and> nonempty_positions [''ab'', [], ''cd''] = [0, 2]
   \<and> outcome echo_fetch sample_json \<lparr>req_id = 0, req_data = ''ab''\<rparr> = Inr (sample_result 0)
   \<and> outcome echo_fetch sample_json \<lparr>req_id = 2, req_data = ''cd''\<rparr> = Inr (sample_result 2)
   \<and> map id' (shared_results (handleSubmit echo_fetch sample_json submit_state)) = [''0'', ''2'']
   \<and> innerHTML (handleSubmit echo_fetch sample_json submit_state) =
       Some ''<span id="0" class="border-b-2 border-red-400">ab</span><br><br>cd''
   \<and> texts_of ''<span id="0" class="border-b-2 border-red-400">ab</span><br><br>cd'' =
       [''<span id="0" class="border-b-2 border-red-400">ab</span>'', [], ''cd'']\<close>
proof -
  have m: "innerHTML submit_state = Some ''ab<br><br>cd''"
    by (simp add: submit_state_def)
  have t: "[''ab'', [], ''cd''] = texts_of (strip_tags ''ab<br><br>cd'')"
    by (rule sample_texts [symmetric])
  have ok: "\<forall>i \<in> set (nonempty_positions [''ab'', [], ''cd'']).
         outcome echo_fetch sample_json \<lparr>req_id = i, req_data = [''ab'', [], ''cd''] ! i\<rparr>
           = Inr (sample_result i)"
    by (simp add: sample_outcome)
  have e: "trace submit_state = []"
    by (simp add: submit_state_def)
  have g: "num_gt (gpt (score (sample_result 0))) (human (score (sample_result 0)))"
    "\<not> num_gt (gpt (score (sample_result 2))) (human (score (sample_result 2)))"
    by (simp_all add: sample_result_def detailed_result_def human_result_def num_gt_def)
  note c = calls_for_nonempty_segments [OF m t, of echo_fetch sample_json sample_result]
  from c have calls:
    "filter is_Fetch (trace (handleSubmit echo_fetch sample_json submit_state)) =
       [Fetch \<lparr>req_id = 0, req_data = ''ab''\<rparr>, Fetch \<lparr>req_id = 2, req_data = ''cd''\<rparr>]"
    by (simp add: sample_positions e)
  from c ok have ids:
    "map id' (shared_results (handleSubmit echo_fetch sample_json submit_state)) = [''0'', ''2'']"
    by (simp add: sample_positions toString.simps digit_def)
  from c ok obtain buf where
    b: "innerHTML (handleSubmit echo_fetch sample_json submit_state) = Some (join_br buf)"
       "texts_of (join_br buf) = buf"
       "length buf = length [''ab'', [], ''cd'']"
       "\<forall>i<length [''ab'', [], ''cd'']. buf ! i =
            (if [''ab'', [], ''cd''] ! i \<noteq> []
                \<and> num_gt (gpt (score (sample_result i))) (human (score (sample_result i)))
             then wrap_span i ([''ab'', [], ''cd''] ! i) else [''ab'', [], ''cd''] ! i)"
    by blast
  from b(4) g have \<open>buf ! 0 = ''<span id="0" class="border-b-2 border-red-400">ab</span>''\<close>
    and "buf ! 1 = []" and "buf ! 2 = ''cd''"
    by (simp_all add: wrap_span_def toString.simps digit_def)
  with b(3) have
    buf: \<open>buf = [''<span id="0" class="border-b-2 border-red-400">ab</span>'', [], ''cd'']\<close>
    by (intro nth_equalityI) (auto simp: less_Suc_eq numeral_2_eq_2)
  have j: \<open>join_br [''<span id="0" class="border-b-2 border-red-400">ab</span>'', [], ''cd''] =
      ''<span id="0" class="border-b-2 border-red-400">ab</span><br><br>cd''\<close>
    by (simp add: br_def)
  from b(1) have shown:
    \<open>innerHTML (handleSubmit echo_fetch sample_json submit_state) =
       Some ''<span id="0" class="border-b-2 border-red-400">ab</span><br><br>cd''\<close>
    unfolding buf j .
  from b(2) have again:
    \<open>texts_of ''<span id="0" class="border-b-2 border-red-400">ab</span><br><br>cd'' =
       [''<span id="0" class="border-b-2 border-red-400">ab</span>'', [], ''cd'']\<close>
    unfolding buf j .
  have p: "nonempty_positions [''ab'', [], ''cd''] = [0, 2]"
    by (simp add: sample_positions)
  have o0: "outcome echo_fetch sample_json \<lparr>req_id = 0, req_data = ''ab''\<rparr>
              = Inr (sample_result 0)"
    and o2: "outcome echo_fetch sample_json \<lparr>req_id = 2, req_data = ''cd''\<rparr>
              = Inr (sample_result 2)"
    by (simp_all add: sample_outcome)
  show ?thesis
    by (rule conjI m t calls p o0 o2 ids shown again)+
qed

subsection \<open>Segments and results stay in step\<close>

text \<open>
  Claim C8. After a submission whose calls succeed, the buffer that is joined into the
  displayed content has one entry for every segment of the submitted content, and splitting
  the displayed content again gives that buffer back, also when the collection of the
  results is shorter because empty segments were skipped; and the result
  at place \<open>k\<close> of the filtered collection belongs to the \<open>k\<close>th non-empty segment and
  carries the position of that segment as its id, which names one position only.
\<close>

theorem buffer_keeps_every_segment:
  assumes m: "innerHTML st = Some h" and t: "texts = texts_of (strip_tags h)"
    and ok: "\<forall>i \<in> set (nonempty_positions texts).
               outcome fetch json \<lparr>req_id = i, req_data = texts ! i\<rparr> = Inr (result i)"
    and f: "st' = handleSubmit fetch json st"
  shows "(\<exists>buf. innerHTML st' = Some (join_br buf)
             \<and> content (userDocument st') = join_br buf
             \<and> length buf = length texts
             \<and> texts_of (join_br buf) = buf)
       \<and> length (filter is_Fetch (drop (length (trace st)) (trace st'))) = length (shared_results st')
       \<and> results (userDocument st') = shared_results st'
       \<and> length (shared_results st') = length (nonempty_positions texts)
       \<and> length (shared_results st') \<le> length texts
       \<and> (\<forall>k<length (shared_results st').
             nonempty_positions texts ! k < length texts
           \<and> texts ! (nonempty_positions texts ! k) \<noteq> []
           \<and> shared_results st' ! k =
               (result (nonempty_positions texts ! k))\<lparr>id' := toString (nonempty_positions texts ! k)\<rparr>)
       \<and> (\<forall>i j. toString i = toString j \<longrightarrow> i = j)"
proof -
  note eq = handleSubmit_success [OF m t ok]
  let ?buf = "snd (highlight 0 (answers texts result) texts)"
  have 1: "innerHTML st' = Some (join_br ?buf)" "content (userDocument st') = join_br ?buf"
    by (simp_all add: f eq rendered_def)
  have 2: "length ?buf = length texts" "texts_of (join_br ?buf) = ?buf"
    unfolding t by (simp_all add: answers_result_length rendered_resplit answers_length)
  have 3: "shared_results st' = map (\<lambda>i. stamp i (result i)) (nonempty_positions texts)"
    "results (userDocument st') = shared_results st'"
    by (simp_all add: f eq published_answers)
  have 4: "filter is_Fetch (drop (length (trace st)) (trace st')) = map Fetch (requests texts)"
    by (simp add: f eq filter_is_Fetch)
  show ?thesis
    using 1 2 3(2) nonempty_positions_length [of texts]
    by (auto simp: 3(1) 4 requests_positions stamp_def nonempty_positions_nth dest: toString_inj)
qed

theorem buffer_keeps_every_segment_witness:
  "innerHTML submit_state = Some ''ab<br><br>cd''
   \<and> [''ab'', [], ''cd''] = texts_of (strip_tags ''ab<br><br>cd'')
   \<and> nonempty_positions [''ab'', [], ''cd''] = [0, 2]
   \<and> outcome echo_fetch sample_json \<lparr>req_id = 0, req_data = ''ab''\<rparr> = Inr (sample_result 0)
   \<and> outcome echo_fetch sample_json \<lparr>req_id = 2, req_data = ''cd''\<rparr> = Inr (sample_result 2)
   \<and> (\<exists>buf. innerHTML (handleSubmit echo_fetch sample_json submit_state) = Some (join_br buf)
          \<and> length buf = 3)
   \<and> length (shared_results (handleSubmit echo_fetch sample_json submit_state)) = 2"
proof -
  have m: "innerHTML submit_state = Some ''ab<br><br>cd''"
    by (simp add: submit_state_def)
  have t: "[''ab'', [], ''cd''] = texts_of (strip_tags ''ab<br><br>cd'')"
    by (rule sample_texts [symmetric])
  have ok: "\<forall>i \<in> set (nonempty_positions [''ab'', [], ''cd'']).
         outcome echo_fetch sample_json \<lparr>req_id = i, req_data = [''ab'', [], ''cd''] ! i\<rparr>
           = Inr (sample_result i)"
    by (simp add: sample_outcome)
  from buffer_keeps_every_segment [OF m t ok refl] ok
  show ?thesis
    by (auto simp: m sample_texts sample_positions sample_outcome)
qed

subsection \<open>Highlighting\<close>

text \<open>
  Claim C2. When every one of the \<open>N\<close> segments has a successful result, the new content
  is the join of a buffer, which are its segments again, in which exactly the segments whose
  result has a gpt score greater than its human score are wrapped in a highlight span, the
  span carrying the position of the segment as its id; the positions whose entry was changed
  are exactly those, so there are as many wrappers as flagged results; and the id of every
  result is its position, written as a string.
\<close>

theorem flagged_segments_are_wrapped:
  assumes m: "innerHTML st = Some h" and t: "texts = texts_of (strip_tags h)"
    and n: "[] \<notin> set texts"
    and ok: "\<forall>i<length texts.
               outcome fetch json \<lparr>req_id = i, req_data = texts ! i\<rparr> = Inr (result i)"
    and f: "st' = handleSubmit fetch json st"
  shows \<open>\<exists>buf. innerHTML st' = Some (join_br buf)
         \<and> texts_of (join_br buf) = buf
         \<and> length buf = length texts
         \<and> (\<forall>i<length texts.
               buf ! i =
                 (if num_gt (gpt (score (result i))) (human (score (result i)))
                  then ''<span id="'' @ toString i @ ''" class="border-b-2 border-red-400">''
                       @ texts ! i @ ''</span>''
                  else texts ! i))
         \<and> {i. i < length texts \<and> buf ! i \<noteq> texts ! i} =
             {i. i < length texts \<and> num_gt (gpt (score (result i))) (human (score (result i)))}
         \<and> shared_results st' = map (\<lambda>i. (result i)\<lparr>id' := toString i\<rparr>) [0..<length texts]\<close>
proof -
  have ok': "\<forall>i \<in> set (nonempty_positions texts).
               outcome fetch json \<lparr>req_id = i, req_data = texts ! i\<rparr> = Inr (result i)"
    using ok by (simp add: nonempty_positions_all [OF n])
  note eq = handleSubmit_success [OF m t ok']
  let ?buf = "snd (highlight 0 (answers texts result) texts)"
  have 1: "innerHTML st' = Some (join_br ?buf)"
    by (simp add: f eq rendered_def)
  have 2: "length ?buf = length texts"
    by (rule answers_result_length)
  have 7: "texts_of (join_br ?buf) = ?buf"
    unfolding t by (simp add: rendered_resplit answers_length)
  have 3: "?buf ! i = (if num_gt (gpt (score (result i))) (human (score (result i)))
                       then wrap_span i (texts ! i) else texts ! i)"
    if "i < length texts" for i
  proof -
    from that n have "texts ! i \<noteq> []" by (metis nth_mem)
    with that show ?thesis
      by (simp add: highlight_snd_nth answers_length answers_nth)
  qed
  have 4: "shared_results st' = map (\<lambda>i. (result i)\<lparr>id' := toString i\<rparr>) [0..<length texts]"
    by (simp add: f eq published_answers nonempty_positions_all [OF n] stamp_def)
  have 5: "{i. i < length texts \<and> ?buf ! i \<noteq> texts ! i} =
             {i. i < length texts \<and> num_gt (gpt (score (result i))) (human (score (result i)))}"
    using 3 by (auto simp: wrap_span_differs split: if_splits)
  have 6: "\<forall>i<length texts. ?buf ! i =
                 (if num_gt (gpt (score (result i))) (human (score (result i)))
                  then ''<span id=\"'' @ toString i @ ''\" class=\"border-b-2 border-red-400\">''
                       @ texts ! i @ ''</span>''
                  else texts ! i)"
    using 3 by (simp add: wrap_span_def)
  from 1 2 4 5 6 7 show ?thesis by blast
qed

theorem flagged_segments_are_wrapped_witness:
  \<open>innerHTML two_segments_state = Some ''ab<br>cd''
   \<and> [''ab'', ''cd''] = texts_of (strip_tags ''ab<br>cd'')
   \<and> [] \<notin> set [''ab'', ''cd'']
   \<and> outcome echo_fetch sample_json \<lparr>req_id = 0, req_data = ''ab''\<rparr> = Inr (sample_result 0)
   \<and> outcome echo_fetch sample_json \<lparr>req_id = 1, req_data = ''cd''\<rparr> = Inr (sample_result 1)
   \<and> innerHTML (handleSubmit echo_fetch sample_json two_segments_state) =
       Some ''<span id="0" class="border-b-2 border-red-400">ab</span><br>cd''
   \<and> map id' (shared_results (handleSubmit echo_fetch sample_json two_segments_state)) =
       [''0'', ''1'']\<close>
proof -
  have m: "innerHTML two_segments_state = Some ''ab<br>cd''"
    by (simp add: two_segments_state_def)
  have t: "[''ab'', ''cd''] = texts_of (strip_tags ''ab<br>cd'')"
    by (rule two_texts [symmetric])
  have n: "[] \<notin> set [''ab'', ''cd'']" by simp
  have ok: "\<forall>i<length [''ab'', ''cd''].
         outcome echo_fetch sample_json \<lparr>req_id = i, req_data = [''ab'', ''cd''] ! i\<rparr>
           = Inr (sample_result i)"
    by (simp add: sample_outcome)
  have g: "num_gt (gpt (score (sample_result 0))) (human (score (sample_result 0)))"
    "\<not> num_gt (gpt (score (sample_result 1))) (human (score (sample_result 1)))"
    by (simp_all add: sample_result_def detailed_result_def human_result_def num_gt_def)
  from flagged_segments_are_wrapped [OF m t n ok refl] obtain buf where
    b: "innerHTML (handleSubmit echo_fetch sample_json two_segments_state) = Some (join_br buf)"
       "length buf = length [''ab'', ''cd'']"
       \<open>\<forall>i<length [''ab'', ''cd'']. buf ! i =
                 (if num_gt (gpt (score (sample_result i))) (human (score (sample_result i)))
                  then ''<span id="'' @ toString i @ ''" class="border-b-2 border-red-400">''
                       @ [''ab'', ''cd''] ! i @ ''</span>''
                  else [''ab'', ''cd''] ! i)\<close>
       "shared_results (handleSubmit echo_fetch sample_json two_segments_state) =
          map (\<lambda>i. (sample_result i)\<lparr>id' := toString i\<rparr>) [0..<length [''ab'', ''cd'']]"
    by blast
  from b(3) g have \<open>buf ! 0 = ''<span id="0" class="border-b-2 border-red-400">ab</span>''\<close>
    and "buf ! 1 = ''cd''"
    by (simp_all add: toString.simps digit_def)
  with b(2) have \<open>buf = [''<span id="0" class="border-b-2 border-red-400">ab</span>'', ''cd'']\<close>
    by (intro nth_equalityI) (auto simp: less_Suc_eq)
  with b(1,4) have
    \<open>innerHTML (handleSubmit echo_fetch sample_json two_segments_state) =
       Some ''<span id="0" class="border-b-2 border-red-400">ab</span><br>cd''\<close>
    "map id' (shared_results (handleSubmit echo_fetch sample_json two_segments_state)) =
       [''0'', ''1'']"
    by (simp_all add: br_def upt_rec toString.simps digit_def)
  with m t n show ?thesis by (simp add: sample_outcome)
qed

subsection \<open>The loading flag\<close>

text \<open>
  Claim C9, as stated: the loading flag is set before the calls are dispatched. The handler
  builds the array of the calls first, which posts them, and sets the flag afterwards: in
  the sample submission both calls come before the flag.
\<close>

theorem loading_before_dispatch_counterexample:
  "take 3 (trace (handleSubmit echo_fetch sample_json submit_state)) =
     [SetInnerHTML ''ab<br><br>cd'', Fetch \<lparr>req_id = 0, req_data = ''ab''\<rparr>,
      Fetch \<lparr>req_id = 2, req_data = ''cd''\<rparr>]
   \<and> trace (handleSubmit echo_fetch sample_json submit_state) ! 3 = SetIsLoading True
   \<and> \<not> preceded (is_SetIsLoading True) is_Fetch
         (trace (handleSubmit echo_fetch sample_json submit_state))"
proof -
  have m: "innerHTML submit_state = Some ''ab<br><br>cd''"
    by (simp add: submit_state_def)
  have s: "strip_tags ''ab<br><br>cd'' = ''ab<br><br>cd''"
    by (simp add: strip_tags.simps tag_defs)
  have ok: "\<forall>i \<in> set (nonempty_positions [''ab'', [], ''cd'']).
         outcome echo_fetch sample_json \<lparr>req_id = i, req_data = [''ab'', [], ''cd''] ! i\<rparr>
           = Inr (sample_result i)"
    by (simp add: sample_outcome)
  have e: "trace submit_state = []"
    by (simp add: submit_state_def)
  show ?thesis
    unfolding handleSubmit_success [OF m sample_texts [symmetric] ok]
    by (simp add: e s sample_requests)
qed

text \<open>
  Claim C9, amended. The effects of a submission are, in this order: the reset of the
  surface when it is mounted, the calls, the loading flag set to true, and then either one
  logged error or the new content, the published results, the document with that content,
  the rating of those results and those results, and the loading flag set to false. So the
  flag is set to true after the calls are dispatched and before any result is handled, and
  to false only after the document is written.
\<close>

theorem loading_after_dispatch:
  "\<exists>pre tail.
     trace (handleSubmit fetch json st) =
       trace st @ pre @ map Fetch (requests (texts_of (strip_tags (innerHTML_or_empty st))))
         @ [SetIsLoading True] @ tail
   \<and> (pre = [] \<or> pre = [SetInnerHTML (strip_tags (innerHTML_or_empty st))])
   \<and> ((\<exists>e. tail = [ConsoleLog e])
      \<or> (\<exists>rs d. tail = [SetInnerHTML (content d), SetResults rs, UpdateUserDocument d,
                          SetIsLoading False]
               \<and> rating d = rate rs \<and> results d = rs))
   \<and> preceded is_UpdateUserDocument (is_SetIsLoading False)
        (drop (length (trace st)) (trace (handleSubmit fetch json st)))"
proof -
  from handleSubmit_effects [of fetch json st] obtain pre tail where
    tr: "trace (handleSubmit fetch json st) =
       trace st @ pre @ map Fetch (requests (texts_of (strip_tags (innerHTML_or_empty st))))
         @ [SetIsLoading True] @ tail"
    and pre: "pre = [] \<or> pre = [SetInnerHTML (strip_tags (innerHTML_or_empty st))]"
    and tail: "(\<exists>e. tail = [ConsoleLog e])
      \<or> (\<exists>rs d. tail = [SetInnerHTML (content d), SetResults rs, UpdateUserDocument d,
                          SetIsLoading False]
               \<and> rating d = rate rs \<and> results d = rs)"
    by blast
  let ?calls = "map Fetch (requests (texts_of (strip_tags (innerHTML_or_empty st))))"
  have "\<forall>e \<in> set (pre @ ?calls @ [SetIsLoading True]).
          \<not> is_UpdateUserDocument e \<and> \<not> is_SetIsLoading False e"
    using pre by auto
  from preceded_skip [OF this, of tail]
  have "preceded is_UpdateUserDocument (is_SetIsLoading False)
          (pre @ ?calls @ [SetIsLoading True] @ tail) =
        preceded is_UpdateUserDocument (is_SetIsLoading False) tail"
    by simp
  moreover have "preceded is_UpdateUserDocument (is_SetIsLoading False) tail"
    using tail by auto
  ultimately have "preceded is_UpdateUserDocument (is_SetIsLoading False)
        (drop (length (trace st)) (trace (handleSubmit fetch json st)))"
    by (simp add: tr)
  with tr pre tail show ?thesis by blast
qed

subsection \<open>Failures\<close>

text \<open>
  Claim C10. When the call for a segment is rejected, or the body of its response does not
  parse, the error is logged and nothing else happens after the loading flag was set: no
  results are published, the document is not written, the flag stays true, and the metrics
  panel shows its loader.
\<close>

theorem failure_is_only_logged:
  assumes m: "innerHTML st = Some h" and t: "texts = texts_of (strip_tags h)"
    and i: "i < length texts" "texts ! i \<noteq> []"
    and fails: "fetch \<lparr>req_id = i, req_data = texts ! i\<rparr> = Inl err
      \<or> (\<exists>response. fetch \<lparr>req_id = i, req_data = texts ! i\<rparr> = Inr response
                    \<and> json response = Inl err)"
    and f: "st' = handleSubmit fetch json st"
  shows "(\<exists>e. trace st' =
            trace st @ [SetInnerHTML (strip_tags h)] @ map Fetch (requests texts) @
              [SetIsLoading True, ConsoleLog e])
       \<and> shared_results st' = shared_results st
       \<and> userDocument st' = userDocument st
       \<and> isLoading st'
       \<and> SetIsLoading False \<notin> set (drop (length (trace st)) (trace st'))
       \<and> TextMetrics toFixed2 (isLoading st') (userDocument st') = ResultMetricsLoader"
proof -
  from fails have "outcome fetch json \<lparr>req_id = i, req_data = texts ! i\<rparr> = Inl err"
    by (auto simp: outcome_def)
  from handleSubmit_failure [OF m t i this] f obtain e where
    eq: "st' = st\<lparr>innerHTML := Some (strip_tags h), isLoading := True,
        trace := trace st @ [SetInnerHTML (strip_tags h)] @ map Fetch (requests texts) @
                 [SetIsLoading True, ConsoleLog e]\<rparr>"
    by auto
  show ?thesis
    unfolding eq by (auto simp: TextMetrics_def)
qed

theorem failure_is_only_logged_witness:
  "innerHTML submit_state = Some ''ab<br><br>cd''
   \<and> [''ab'', [], ''cd''] = texts_of (strip_tags ''ab<br><br>cd'')
   \<and> (2::nat) < length [''ab'', [], ''cd''] \<and> [''ab'', [], ''cd''] ! 2 \<noteq> []
   \<and> failing_fetch \<lparr>req_id = 2, req_data = [''ab'', [], ''cd''] ! 2\<rparr> = Inl FetchError
   \<and> trace (handleSubmit failing_fetch sample_json submit_state) =
       [SetInnerHTML ''ab<br><br>cd'', Fetch \<lparr>req_id = 0, req_data = ''ab''\<rparr>,
        Fetch \<lparr>req_id = 2, req_data = ''cd''\<rparr>, SetIsLoading True, ConsoleLog FetchError]
   \<and> isLoading (handleSubmit failing_fetch sample_json submit_state)
   \<and> userDocument (handleSubmit failing_fetch sample_json submit_state) = userDocument submit_state"
proof -
  have m: "innerHTML submit_state = Some ''ab<br><br>cd''"
    by (simp add: submit_state_def)
  have t: "[''ab'', [], ''cd''] = texts_of (strip_tags ''ab<br><br>cd'')"
    by (rule sample_texts [symmetric])
  have i: "(2::nat) < length [''ab'', [], ''cd'']" "[''ab'', [], ''cd''] ! 2 \<noteq> []"
    by simp_all
  have fl: "failing_fetch \<lparr>req_id = 2, req_data = [''ab'', [], ''cd''] ! 2\<rparr> = Inl FetchError"
    by (simp add: failing_fetch_def)
  have s: "strip_tags ''ab<br><br>cd'' = ''ab<br><br>cd''"
    by (simp add: strip_tags.simps tag_defs)
  have e: "trace submit_state = []"
    by (simp add: submit_state_def)
  have s': "texts_of ''ab<br><br>cd'' = [''ab'', [], ''cd'']"
    using sample_texts by (simp only: s)
  have direct: "trace (handleSubmit failing_fetch sample_json submit_state) =
       [SetInnerHTML ''ab<br><br>cd'', Fetch \<lparr>req_id = 0, req_data = ''ab''\<rparr>,
        Fetch \<lparr>req_id = 2, req_data = ''cd''\<rparr>, SetIsLoading True, ConsoleLog FetchError]"
    by (simp add: handleSubmit_mounted [OF m] Let_def s s' sample_requests e
        settled_Cons settled_Nil failing_fetch_def console_log_def emit_def)
  have fl': "failing_fetch \<lparr>req_id = 2, req_data = [''ab'', [], ''cd''] ! 2\<rparr> = Inl FetchError
      \<or> (\<exists>response. failing_fetch \<lparr>req_id = 2, req_data = [''ab'', [], ''cd''] ! 2\<rparr> = Inr response
                    \<and> sample_json response = Inl FetchError)"
    using fl by blast
  from failure_is_only_logged [where fetch = failing_fetch and json = sample_json
      and err = FetchError, OF m t i fl' refl] direct m t i fl
  show ?thesis by blast
qed

end
